theory Spec2Isabelle
  imports Complex_Main "HOL-Library.Log_Nat" "HOL-Library.AList"
begin

section \<open>Exceptions\<close>

text \<open>
  Every \<^verbatim>\<open>raise\<close> of the planning code and every exception of the Python runtime that
  the planning code can trigger is a value. The three \<^verbatim>\<open>ValueError\<close>s raised by the
  repository carry the numbers their messages print.
\<close>

datatype value_error =
    MathDomainError
  | InsufficientTokenAmounts "(string \<times> int \<times> int) list"
  | InsufficientERG int int
  | NotEnoughERG int int

datatype error =
    ZeroDivisionError | OverflowError | IndexError | KeyError | ValueError value_error

definition bind_err :: "error + 'a \<Rightarrow> ('a \<Rightarrow> error + 'b) \<Rightarrow> error + 'b" where
  "bind_err m f = (case m of Inl e \<Rightarrow> Inl e | Inr x \<Rightarrow> f x)"

section \<open>Python floats\<close>

text \<open>
  A finite Python float is an IEEE-754 binary64 number, hence a rational. Each
  arithmetic operation of the source (int to float, \<^verbatim>\<open>/\<close>, \<^verbatim>\<open>*\<close>) is the exact
  rational result rounded to the nearest binary64 number, ties to even (\<open>binary64\<close>); a
  result of magnitude \<open>2 ^ 1024\<close> or more (binary exponent \<open>ilog2\<close> at least 1024)
  makes the int-to-float conversion, the true division of ints and \<^verbatim>\<open>**\<close> raise
  \<^verbatim>\<open>OverflowError\<close>, and makes a float product or quotient infinite, on which the
  \<^verbatim>\<open>int()\<close> that follows in the source raises \<^verbatim>\<open>OverflowError\<close> as well
  (\<open>overflow_check\<close>).
\<close>

definition rne :: "rat \<Rightarrow> int" where
  "rne y = (let f = \<lfloor>y\<rfloor>; r = y - of_int f
            in if r < 1 / 2 then f else if 1 / 2 < r then f + 1
               else if even f then f else f + 1)"

definition ilog2 :: "rat \<Rightarrow> int" where
  "ilog2 y = (if 1 \<le> y then bitlen \<lfloor>y\<rfloor> - 1 else - bitlen (\<lceil>1 / y\<rceil> - 1))"

text \<open>
  \<open>fexp x\<close> is the binary exponent of the binade of a positive \<open>x\<close>, held at
  \<open>- 1022\<close> in the subnormal range; the doubles of that binade are the multiples of
  \<open>2 powi (fexp x - 52)\<close>.
\<close>

definition fexp :: "rat \<Rightarrow> int" where
  "fexp x = max (- 1022) (ilog2 x)"

definition binary64 :: "rat \<Rightarrow> rat" where
  "binary64 x = (if x = 0 then 0
     else let u = 2 powi (fexp \<bar>x\<bar> - 52)
          in sgn x * of_int (rne (\<bar>x\<bar> / u)) * u)"

definition overflow_check :: "rat \<Rightarrow> error + rat" where
  "overflow_check y = (if y \<noteq> 0 \<and> 1024 \<le> ilog2 \<bar>y\<bar> then Inl OverflowError else Inr y)"

definition to_double :: "rat \<Rightarrow> error + rat" where
  "to_double x = overflow_check (binary64 x)"

definition float_of_int :: "int \<Rightarrow> error + rat" where
  "float_of_int a = to_double (of_int a)"

definition int_truediv :: "int \<Rightarrow> int \<Rightarrow> error + rat" where
  "int_truediv a b = (if b = 0 then Inl ZeroDivisionError else to_double (of_int a / of_int b))"

definition float_div :: "rat \<Rightarrow> rat \<Rightarrow> error + rat" where
  "float_div x y = (if y = 0 then Inl ZeroDivisionError else to_double (x / y))"

definition float_mul :: "rat \<Rightarrow> rat \<Rightarrow> error + rat" where
  "float_mul x y = to_double (x * y)"

text \<open>
  The two functions of the C library that the source reaches are parameters of the
  model: \<open>libm_log n\<close> is the double that \<^verbatim>\<open>math.log\<close> returns at an int \<open>n\<close> of 2 or
  more, and \<open>libm_pow2 x\<close> the double that \<^verbatim>\<open>pow(x, 2.0)\<close> returns at a non-zero
  \<open>x\<close>, which is what \<^verbatim>\<open>x ** 2\<close> evaluates to. Neither is correctly rounded in
  general, so no rounding is assumed of them.
\<close>

record libm =
  libm_log :: "int \<Rightarrow> rat"
  libm_pow2 :: "rat \<Rightarrow> rat"

text \<open>
  \<^verbatim>\<open>x ** 2\<close> on a float: the power of zero is 0.0, and a result out of range raises
  \<^verbatim>\<open>OverflowError\<close>.
\<close>

definition float_sq :: "(rat \<Rightarrow> rat) \<Rightarrow> rat \<Rightarrow> error + rat" where
  "float_sq mpow2 x = (if x = 0 then Inr 0 else overflow_check (mpow2 x))"

definition py_int :: "rat \<Rightarrow> int" where
  "py_int y = (if 0 \<le> y then \<lfloor>y\<rfloor> else \<lceil>y\<rceil>)"

definition py_ceil :: "rat \<Rightarrow> int" where
  "py_ceil y = \<lceil>y\<rceil>"

text \<open>
  \<^verbatim>\<open>math.log\<close> on an int: a non-positive argument raises \<^verbatim>\<open>ValueError\<close>
  (math domain error), the logarithm of 1 is 0.0, and the value at an argument of 2 or
  more is that of the C library, the parameter \<open>mlog\<close>.
\<close>

definition math_log :: "(int \<Rightarrow> rat) \<Rightarrow> int \<Rightarrow> error + rat" where
  "math_log mlog n =
     (if n \<le> 0 then Inl (ValueError MathDomainError) else if n = 1 then Inr 0 else Inr (mlog n))"

definition py_floordiv :: "int \<Rightarrow> int \<Rightarrow> error + int" where
  "py_floordiv a b = (if b = 0 then Inl ZeroDivisionError else Inr (a div b))"

section \<open>Data model\<close>

text \<open>
  A dict is the list of its items, in insertion order, with distinct keys;
  \<open>dict_get d k v\<close> is \<^verbatim>\<open>d.get(k, v)\<close>, \<open>dict_index d k\<close> is \<^verbatim>\<open>d[k]\<close>, and
  \<open>AList.update k v d\<close> is the assignment \<^verbatim>\<open>d[k] = v\<close>.
\<close>

definition dict_get :: "('k \<times> 'v) list \<Rightarrow> 'k \<Rightarrow> 'v \<Rightarrow> 'v" where
  "dict_get d k dflt = (case map_of d k of None \<Rightarrow> dflt | Some v \<Rightarrow> v)"

definition dict_index :: "('k \<times> 'v) list \<Rightarrow> 'k \<Rightarrow> error + 'v" where
  "dict_index d k = (case map_of d k of None \<Rightarrow> Inl KeyError | Some v \<Rightarrow> Inr v)"

record utxo =
  box_id :: string
  box_value :: int
  tokens :: "(string \<times> int) list"

type_synonym snapshot = "(string \<times> utxo list) list"

record token_config =
  cfg_token_id :: string
  distribution_type :: string
  tokens_per_round :: int
  cfg_total_amount :: int

record token_distribution =
  token_id :: string
  amount_per_recipient :: int
  total_amount :: int

section \<open>calculate\_token\_distributions\<close>

definition total_rounds :: "token_config \<Rightarrow> error + int" where
  "total_rounds c =
     bind_err (int_truediv (cfg_total_amount c) (tokens_per_round c)) (\<lambda>q. Inr (py_ceil q))"

definition logarithmic_amount :: "(int \<Rightarrow> rat) \<Rightarrow> int \<Rightarrow> int \<Rightarrow> int \<Rightarrow> error + int" where
  "logarithmic_amount mlog base_amount rounds current_round =
     bind_err (math_log mlog (rounds - current_round + 1)) (\<lambda>num.
     bind_err (math_log mlog rounds) (\<lambda>den.
     bind_err (float_div num den) (\<lambda>factor.
     bind_err (float_of_int base_amount) (\<lambda>b.
     bind_err (float_mul b factor) (\<lambda>p. Inr (py_int p))))))"

definition quadratic_amount :: "(rat \<Rightarrow> rat) \<Rightarrow> int \<Rightarrow> int \<Rightarrow> int \<Rightarrow> error + int" where
  "quadratic_amount mpow2 base_amount rounds current_round =
     bind_err (int_truediv (rounds - current_round) rounds) (\<lambda>q.
     bind_err (float_sq mpow2 q) (\<lambda>factor.
     bind_err (float_of_int base_amount) (\<lambda>b.
     bind_err (float_mul b factor) (\<lambda>p. Inr (py_int p)))))"

text \<open>
  The value of the quadratic branch when nothing overflows:
  \<^verbatim>\<open>int(base_amount * ((total_rounds - current_round) / total_rounds) ** 2)\<close> with each
  operation in double arithmetic. \<open>pow2_monotone\<close> says of a C library that its
  \<^verbatim>\<open>pow(x, 2.0)\<close> is non-decreasing in \<open>x\<close> and stays between 0 and 1 for \<open>x\<close> in
  the interval from 0 (excluded) to 1.
\<close>

definition sq_value :: "(rat \<Rightarrow> rat) \<Rightarrow> rat \<Rightarrow> rat" where
  "sq_value mpow2 q = (if q = 0 then 0 else mpow2 q)"

definition quadratic_value :: "(rat \<Rightarrow> rat) \<Rightarrow> int \<Rightarrow> int \<Rightarrow> int \<Rightarrow> int" where
  "quadratic_value mpow2 base_amount rounds current_round =
     \<lfloor>binary64 (binary64 (of_int base_amount) *
        sq_value mpow2 (binary64 (of_int (rounds - current_round) / of_int rounds)))\<rfloor>"

definition pow2_monotone :: "(rat \<Rightarrow> rat) \<Rightarrow> bool" where
  "pow2_monotone mpow2 \<longleftrightarrow>
     (\<forall>x y. 0 < x \<and> x \<le> y \<and> y \<le> 1 \<longrightarrow> 0 \<le> mpow2 x \<and> mpow2 x \<le> mpow2 y \<and> mpow2 y \<le> 1)"

definition round_amount :: "libm \<Rightarrow> token_config \<Rightarrow> int \<Rightarrow> error + int" where
  "round_amount lm c current_round =
     bind_err (total_rounds c) (\<lambda>rounds.
       if distribution_type c = ''linear'' then Inr (tokens_per_round c)
       else if distribution_type c = ''logarithmic''
         then logarithmic_amount (libm_log lm) (tokens_per_round c) rounds current_round
       else if distribution_type c = ''quadratic''
         then quadratic_amount (libm_pow2 lm) (tokens_per_round c) rounds current_round
       else Inr (tokens_per_round c))"

definition total_available :: "snapshot \<Rightarrow> string \<Rightarrow> int" where
  "total_available utxos tid =
     sum_list (map (\<lambda>u. dict_get (tokens u) tid 0) (dict_get utxos tid []))"

text \<open>
  One iteration of the loop over \<^verbatim>\<open>token_configs.items()\<close>: \<open>Inr None\<close> is a
  \<^verbatim>\<open>continue\<close> or a per-recipient amount that is not positive, \<open>Inr (Some d)\<close> the
  distribution appended, \<open>Inl e\<close> an exception.
\<close>

definition token_step ::
  "libm \<Rightarrow> snapshot \<Rightarrow> token_config \<Rightarrow> int \<Rightarrow> int \<Rightarrow> error + token_distribution option" where
  "token_step lm utxos c current_round num_recipients =
     (if dict_get utxos (cfg_token_id c) [] = [] then Inr None
      else if total_available utxos (cfg_token_id c) = 0 then Inr None
      else
        bind_err (round_amount lm c current_round) (\<lambda>ra.
        bind_err (py_floordiv ra num_recipients) (\<lambda>a.
        bind_err (py_floordiv (total_available utxos (cfg_token_id c)) num_recipients) (\<lambda>b.
          if 0 < min a b
          then Inr (Some \<lparr>token_id = cfg_token_id c, amount_per_recipient = min a b,
                          total_amount = min a b * num_recipients\<rparr>)
          else Inr None))))"

fun calc_loop ::
  "libm \<Rightarrow> snapshot \<Rightarrow> int \<Rightarrow> int \<Rightarrow> (string \<times> token_config) list \<Rightarrow>
   token_distribution list \<Rightarrow> error + token_distribution list" where
  "calc_loop lm utxos current_round num_recipients [] distributions = Inr distributions"
| "calc_loop lm utxos current_round num_recipients ((token_name, c) # rest) distributions =
     (case token_step lm utxos c current_round num_recipients of
        Inl e \<Rightarrow> Inl e
      | Inr None \<Rightarrow> calc_loop lm utxos current_round num_recipients rest distributions
      | Inr (Some d) \<Rightarrow>
          calc_loop lm utxos current_round num_recipients rest (distributions @ [d]))"

definition calculate_token_distributions ::
  "libm \<Rightarrow> snapshot \<Rightarrow> (string \<times> token_config) list \<Rightarrow> int \<Rightarrow> int \<Rightarrow>
   error + token_distribution list" where
  "calculate_token_distributions lm utxos token_configs current_round num_recipients =
     calc_loop lm utxos current_round num_recipients token_configs []"

section \<open>select\_utxos\<close>

definition NANOERG_PER_RECIPIENT :: int where "NANOERG_PER_RECIPIENT = 1000000"
definition MIN_BOX_VALUE :: int where "MIN_BOX_VALUE = 1000000"
definition FEE :: int where "FEE = 1000000"

text \<open>
  The four accumulators of \<^verbatim>\<open>select_utxos\<close> (\<^verbatim>\<open>selected_boxes\<close>, \<^verbatim>\<open>total_erg\<close>,
  \<^verbatim>\<open>token_amounts\<close>, \<^verbatim>\<open>selected_box_ids\<close>) are the fields of the \<^verbatim>\<open>UTXOSet\<close>
  it returns, so the record is also the state of the two passes.
\<close>

record utxo_set =
  boxes :: "utxo list"
  total_erg :: int
  token_amounts :: "(string \<times> int) list"
  box_ids :: "string set"

definition needed_erg :: "int \<Rightarrow> int" where
  "needed_erg num_recipients = (NANOERG_PER_RECIPIENT + MIN_BOX_VALUE) * num_recipients + FEE"

definition initial_amounts :: "token_distribution list \<Rightarrow> (string \<times> int) list" where
  "initial_amounts token_distributions =
     fold (\<lambda>td ta. AList.update (token_id td) 0 ta) token_distributions []"

definition multi_token_boxes :: "snapshot \<Rightarrow> utxo list" where
  "multi_token_boxes all_utxos =
     concat (map (\<lambda>(tid, utxos). filter (\<lambda>u. 1 < length (tokens u)) utxos) all_utxos)"

definition needed_count :: "(string \<times> int) list \<Rightarrow> utxo \<Rightarrow> nat" where
  "needed_count ta box =
     length (filter (\<lambda>tid. map_of (tokens box) tid \<noteq> None) (map fst ta))"

text \<open>
  \<^verbatim>\<open>list.sort(key=..., reverse=True)\<close> is stable: boxes with equal keys keep their
  order, which is what \<open>sort_key\<close> on the negated key does.
\<close>

definition add_tokens :: "(string \<times> int) list \<Rightarrow> (string \<times> int) list \<Rightarrow> (string \<times> int) list" where
  "add_tokens box_tokens ta =
     fold (\<lambda>(tid, amount) ta.
             case map_of ta tid of None \<Rightarrow> ta | Some v \<Rightarrow> AList.update tid (v + amount) ta)
          box_tokens ta"

definition use_multi :: "utxo \<Rightarrow> utxo_set \<Rightarrow> utxo_set" where
  "use_multi box s =
     (if box_id box \<in> box_ids s then s
      else \<lparr>boxes = boxes s @ [box],
            total_erg = total_erg s + box_value box,
            token_amounts = add_tokens (tokens box) (token_amounts s),
            box_ids = insert (box_id box) (box_ids s)\<rparr>)"

definition first_pass :: "snapshot \<Rightarrow> utxo_set \<Rightarrow> utxo_set" where
  "first_pass all_utxos s =
     fold use_multi
       (sort_key (\<lambda>box. - int (needed_count (token_amounts s) box)) (multi_token_boxes all_utxos))
       s"

fun top_up :: "string \<Rightarrow> int \<Rightarrow> utxo list \<Rightarrow> utxo_set \<Rightarrow> error + utxo_set" where
  "top_up tid target [] s = Inr s"
| "top_up tid target (box # rest) s =
     (case dict_index (token_amounts s) tid of
        Inl e \<Rightarrow> Inl e
      | Inr held \<Rightarrow>
          if target \<le> held then Inr s
          else top_up tid target rest
                 \<lparr>boxes = boxes s @ [box],
                  total_erg = total_erg s + box_value box,
                  token_amounts =
                    AList.update tid (held + dict_get (tokens box) tid 0) (token_amounts s),
                  box_ids = insert (box_id box) (box_ids s)\<rparr>)"

definition available_boxes :: "snapshot \<Rightarrow> string \<Rightarrow> utxo_set \<Rightarrow> utxo list" where
  "available_boxes all_utxos tid s =
     sort_key (\<lambda>box. - dict_get (tokens box) tid 0)
       (filter (\<lambda>box. box_id box \<notin> box_ids s) (dict_get all_utxos tid []))"

definition second_pass_step :: "snapshot \<Rightarrow> token_distribution \<Rightarrow> utxo_set \<Rightarrow> error + utxo_set" where
  "second_pass_step all_utxos td s =
     (case dict_index (token_amounts s) (token_id td) of
        Inl e \<Rightarrow> Inl e
      | Inr held \<Rightarrow>
          if held < total_amount td
          then top_up (token_id td) (total_amount td)
                 (available_boxes all_utxos (token_id td) s) s
          else Inr s)"

fun second_pass :: "snapshot \<Rightarrow> token_distribution list \<Rightarrow> utxo_set \<Rightarrow> error + utxo_set" where
  "second_pass all_utxos [] s = Inr s"
| "second_pass all_utxos (td # rest) s =
     (case second_pass_step all_utxos td s of
        Inl e \<Rightarrow> Inl e
      | Inr s' \<Rightarrow> second_pass all_utxos rest s')"

fun missing_tokens ::
  "(string \<times> int) list \<Rightarrow> token_distribution list \<Rightarrow> error + (string \<times> int \<times> int) list" where
  "missing_tokens ta [] = Inr []"
| "missing_tokens ta (td # rest) =
     (case dict_index ta (token_id td) of
        Inl e \<Rightarrow> Inl e
      | Inr held \<Rightarrow>
          (case missing_tokens ta rest of
             Inl e \<Rightarrow> Inl e
           | Inr ms \<Rightarrow>
               Inr (if held < total_amount td
                    then (token_id td, total_amount td, held) # ms else ms)))"

definition two_pass :: "snapshot \<Rightarrow> token_distribution list \<Rightarrow> error + utxo_set" where
  "two_pass all_utxos token_distributions =
     second_pass all_utxos token_distributions
       (first_pass all_utxos
          \<lparr>boxes = [], total_erg = 0, token_amounts = initial_amounts token_distributions,
           box_ids = {}\<rparr>)"

definition select_utxos :: "snapshot \<Rightarrow> token_distribution list \<Rightarrow> int \<Rightarrow> error + utxo_set" where
  "select_utxos all_utxos token_distributions num_recipients =
     (case two_pass all_utxos token_distributions of
        Inl e \<Rightarrow> Inl e
      | Inr s \<Rightarrow>
          (case missing_tokens (token_amounts s) token_distributions of
             Inl e \<Rightarrow> Inl e
           | Inr ms \<Rightarrow>
               if ms \<noteq> [] then Inl (ValueError (InsufficientTokenAmounts ms))
               else if total_erg s < needed_erg num_recipients
                 then Inl (ValueError (InsufficientERG (needed_erg num_recipients) (total_erg s)))
               else Inr s))"

text \<open>
  The boxes that a loop guarded by \<^verbatim>\<open>if box['box_id'] not in selected_box_ids\<close>
  consumes from a list, given the identifiers used so far: the first occurrence of each
  unused identifier, in list order.
\<close>

fun unused_in_order :: "string set \<Rightarrow> utxo list \<Rightarrow> utxo list" where
  "unused_in_order seen [] = []"
| "unused_in_order seen (b # bs) =
     (if box_id b \<in> seen then unused_in_order seen bs
      else b # unused_in_order (insert (box_id b) seen) bs)"

section \<open>distribute\_multiple\_tokens\<close>

text \<open>
  The node is outside the repository: \<open>get_boxes_by_id b\<close> is the list that
  \<^verbatim>\<open>appKit.getBoxesById([b])\<close> returns, each element reduced to its truth value.
  The function is modelled up to the inputs and outputs it hands to
  \<^verbatim>\<open>appKit.buildUnsignedTransaction\<close>; building, signing and sending belong to the node.
\<close>

record collected =
  input_boxes :: "string list"
  used_utxos :: "string set"
  total_available_erg :: int

record out_box =
  out_value :: int
  out_tokens :: "(string \<times> int) list option"
  out_contract :: string

record plan =
  plan_inputs :: "string list"
  plan_outputs :: "out_box list"

fun collect_token ::
  "(string \<Rightarrow> bool list) \<Rightarrow> string \<Rightarrow> utxo list \<Rightarrow> int \<Rightarrow> collected \<Rightarrow> error + collected" where
  "collect_token get_boxes_by_id tid [] remaining_amount s = Inr s"
| "collect_token get_boxes_by_id tid (u # rest) remaining_amount s =
     (if box_id u \<in> used_utxos s
      then collect_token get_boxes_by_id tid rest remaining_amount s
      else
        (case get_boxes_by_id (box_id u) of
           [] \<Rightarrow> Inl IndexError
         | box # _ \<Rightarrow>
             if box
             then
               (if remaining_amount - dict_get (tokens u) tid 0 \<le> 0
                then Inr \<lparr>input_boxes = input_boxes s @ [box_id u],
                          used_utxos = insert (box_id u) (used_utxos s),
                          total_available_erg = total_available_erg s + box_value u\<rparr>
                else collect_token get_boxes_by_id tid rest
                       (remaining_amount - dict_get (tokens u) tid 0)
                       \<lparr>input_boxes = input_boxes s @ [box_id u],
                        used_utxos = insert (box_id u) (used_utxos s),
                        total_available_erg = total_available_erg s + box_value u\<rparr>)
             else
               (if remaining_amount \<le> 0 then Inr s
                else collect_token get_boxes_by_id tid rest remaining_amount s)))"

fun collect_inputs ::
  "(string \<Rightarrow> bool list) \<Rightarrow> snapshot \<Rightarrow> token_distribution list \<Rightarrow> collected \<Rightarrow> error + collected" where
  "collect_inputs get_boxes_by_id all_utxos [] s = Inr s"
| "collect_inputs get_boxes_by_id all_utxos (td # rest) s =
     (case collect_token get_boxes_by_id (token_id td) (dict_get all_utxos (token_id td) [])
             (total_amount td) s of
        Inl e \<Rightarrow> Inl e
      | Inr s' \<Rightarrow> collect_inputs get_boxes_by_id all_utxos rest s')"

definition recipient_tokens :: "token_distribution list \<Rightarrow> (string \<times> int) list" where
  "recipient_tokens token_distributions =
     fold (\<lambda>td m. AList.update (token_id td) (amount_per_recipient td) m) token_distributions []"

definition recipient_outputs :: "token_distribution list \<Rightarrow> string list \<Rightarrow> out_box list" where
  "recipient_outputs token_distributions recipient_addresses =
     map (\<lambda>recipient.
            \<lparr>out_value = NANOERG_PER_RECIPIENT + MIN_BOX_VALUE,
             out_tokens = Some (recipient_tokens token_distributions),
             out_contract = recipient\<rparr>)
         recipient_addresses"

definition covered :: "snapshot \<Rightarrow> string set \<Rightarrow> string \<Rightarrow> int" where
  "covered all_utxos used tid =
     sum_list (map (\<lambda>u. dict_get (tokens u) tid 0)
                   (filter (\<lambda>u. box_id u \<in> used) (dict_get all_utxos tid [])))"

definition change_tokens ::
  "snapshot \<Rightarrow> string set \<Rightarrow> token_distribution list \<Rightarrow> (string \<times> int) list" where
  "change_tokens all_utxos used token_distributions =
     fold (\<lambda>td m.
             if 0 < covered all_utxos used (token_id td) - total_amount td
             then AList.update (token_id td)
                    (covered all_utxos used (token_id td) - total_amount td) m
             else m)
          token_distributions []"

definition change_outputs :: "int \<Rightarrow> (string \<times> int) list \<Rightarrow> string \<Rightarrow> out_box list" where
  "change_outputs change_value ct proxy_contract =
     (if 0 < change_value \<or> ct \<noteq> []
      then [\<lparr>out_value = max change_value MIN_BOX_VALUE,
             out_tokens = (if ct \<noteq> [] then Some ct else None),
             out_contract = proxy_contract\<rparr>]
      else [])"

definition total_erg_needed :: "nat \<Rightarrow> int" where
  "total_erg_needed num_recipients =
     (NANOERG_PER_RECIPIENT + MIN_BOX_VALUE) * int num_recipients + FEE"

definition distribute_multiple_tokens ::
  "(string \<Rightarrow> bool list) \<Rightarrow> snapshot \<Rightarrow> token_distribution list \<Rightarrow> string list \<Rightarrow> string \<Rightarrow>
   error + plan" where
  "distribute_multiple_tokens get_boxes_by_id all_utxos token_distributions recipient_addresses
       proxy_contract =
     (case collect_inputs get_boxes_by_id all_utxos token_distributions
             \<lparr>input_boxes = [], used_utxos = {}, total_available_erg = 0\<rparr> of
        Inl e \<Rightarrow> Inl e
      | Inr s \<Rightarrow>
          if total_available_erg s < total_erg_needed (length recipient_addresses)
          then Inl (ValueError (NotEnoughERG (total_erg_needed (length recipient_addresses))
                                  (total_available_erg s)))
          else Inr \<lparr>plan_inputs = input_boxes s,
                    plan_outputs =
                      recipient_outputs token_distributions recipient_addresses @
                      change_outputs
                        (total_available_erg s - total_erg_needed (length recipient_addresses))
                        (change_tokens all_utxos (used_utxos s) token_distributions)
                        proxy_contract\<rparr>)"

section \<open>Sample inputs\<close>

text \<open>
  The inputs of the closed examples. \<open>sample_libm\<close> is a C library on the arguments the
  examples reach: its logarithm has the binary64 values of \<^verbatim>\<open>math.log\<close> at 2, 6 and 10,
  and its \<^verbatim>\<open>pow(x, 2.0)\<close> returns the correctly rounded square, as CPython's does
  at 1/2 and at the double nearest 7/10. The general theorems hold for every library.
\<close>

definition sample_libm :: libm where
  "sample_libm =
     \<lparr>libm_log = (\<lambda>n. if n = 2 then 6243314768165359 / 2 ^ 53
                       else if n = 6 then 4034683638976513 / 2 ^ 51
                       else if n = 10 then 2592480341699211 / 2 ^ 50
                       else 0),
      libm_pow2 = (\<lambda>x. binary64 (x * x))\<rparr>"

definition cfgA :: "string \<Rightarrow> int \<Rightarrow> int \<Rightarrow> token_config" where
  "cfgA ty per tot =
     \<lparr>cfg_token_id = ''A'', distribution_type = ty, tokens_per_round = per,
      cfg_total_amount = tot\<rparr>"

definition cfgB :: token_config where
  "cfgB = \<lparr>cfg_token_id = ''B'', distribution_type = ''linear'', tokens_per_round = 10,
           cfg_total_amount = 100\<rparr>"

definition snap1 :: snapshot where
  "snap1 = [(''A'', [\<lparr>box_id = ''b1'', box_value = 5000000, tokens = [(''A'', 500)]\<rparr>])]"

definition snap2 :: snapshot where
  "snap2 = [(''A'', [\<lparr>box_id = ''b1'', box_value = 5000000, tokens = [(''A'', 500)]\<rparr>]),
            (''B'', [\<lparr>box_id = ''b2'', box_value = 5000000, tokens = [(''B'', 40)]\<rparr>])]"

definition node_b2_missing :: "string \<Rightarrow> bool list" where
  "node_b2_missing b = [b \<noteq> ''b2'']"


definition snap_short :: snapshot where
  "snap_short =
     [(''A'', [\<lparr>box_id = ''b1'', box_value = 10000000, tokens = [(''A'', 4)]\<rparr>,
               \<lparr>box_id = ''b2'', box_value = 10000000, tokens = [(''A'', 6)]\<rparr>])]"

definition dist_A10 :: token_distribution where
  "dist_A10 = \<lparr>token_id = ''A'', amount_per_recipient = 10, total_amount = 10\<rparr>"

definition snap_poor :: snapshot where
  "snap_poor = [(''A'', [\<lparr>box_id = ''b1'', box_value = 1000, tokens = [(''A'', 5)]\<rparr>])]"

definition dist_A2 :: token_distribution where
  "dist_A2 = \<lparr>token_id = ''A'', amount_per_recipient = 2, total_amount = 2\<rparr>"

definition box_m1 :: utxo where
  "box_m1 = \<lparr>box_id = ''m1'', box_value = 10000000, tokens = [(''A'', 5), (''X'', 1)]\<rparr>"

definition box_m2 :: utxo where
  "box_m2 = \<lparr>box_id = ''m2'', box_value = 10000000, tokens = [(''A'', 5), (''X'', 1)]\<rparr>"

definition snap_multi :: snapshot where
  "snap_multi = [(''A'', [box_m2, box_m1])]"

definition box_ab :: utxo where
  "box_ab = \<lparr>box_id = ''ab'', box_value = 10000000, tokens = [(''A'', 5), (''B'', 1)]\<rparr>"

definition box_a :: utxo where
  "box_a = \<lparr>box_id = ''a'', box_value = 10000000, tokens = [(''A'', 500)]\<rparr>"

definition snap_mixed :: snapshot where
  "snap_mixed = [(''A'', [box_a, box_m1, box_ab]), (''B'', [box_ab])]"

definition dist_A8 :: token_distribution where
  "dist_A8 = \<lparr>token_id = ''A'', amount_per_recipient = 8, total_amount = 16\<rparr>"

definition dist_B1 :: token_distribution where
  "dist_B1 = \<lparr>token_id = ''B'', amount_per_recipient = 1, total_amount = 1\<rparr>"

section \<open>Properties of the float arithmetic\<close>

lemma bind_err_simps [simp]:
  "bind_err (Inl e) f = Inl e" "bind_err (Inr x) f = f x"
  by (simp_all add: bind_err_def)

lemma ilog2_bounds_ge1:
  fixes x :: rat
  assumes "1 \<le> x"
  shows "2 powi (ilog2 x) \<le> x \<and> x < 2 powi (ilog2 x + 1)"
proof -
  let ?n = "\<lfloor>x\<rfloor>"
  have n1: "1 \<le> ?n" using assms by simp
  then have n0: "0 < ?n" by simp
  from bitlen_bounds[OF n0] have b: "2 ^ nat (bitlen ?n - 1) \<le> ?n" "?n < 2 ^ nat (bitlen ?n)"
    by simp_all
  have bl: "1 \<le> bitlen ?n" using n0 by (simp add: bitlen_alt_def)
  have e: "ilog2 x = bitlen ?n - 1" using assms by (simp add: ilog2_def)
  have lo: "(2::rat) powi (bitlen ?n - 1) = of_int (2 ^ nat (bitlen ?n - 1))"
    using bl by (simp add: power_int_nonneg_exp)
  have hi: "(2::rat) powi (bitlen ?n - 1 + 1) = of_int (2 ^ nat (bitlen ?n))"
    using bl by (simp add: power_int_nonneg_exp)
  have "of_int (2 ^ nat (bitlen ?n - 1)) \<le> (of_int ?n :: rat)"
    using b(1) by (simp only: of_int_le_iff)
  also have "\<dots> \<le> x" by simp
  finally have 1: "2 powi (ilog2 x) \<le> x" by (simp only: e lo)
  have "?n + 1 \<le> 2 ^ nat (bitlen ?n)" using b(2) by simp
  then have "(of_int (?n + 1) :: rat) \<le> of_int (2 ^ nat (bitlen ?n))"
    by (simp only: of_int_le_iff)
  moreover have "x < of_int (?n + 1)" by linarith
  ultimately have "x < of_int (2 ^ nat (bitlen ?n))" by linarith
  then have 2: "x < 2 powi (ilog2 x + 1)" by (simp only: e hi)
  from 1 2 show ?thesis ..
qed

lemma ilog2_bounds_lt1:
  fixes x :: rat
  assumes "0 < x" "x < 1"
  shows "2 powi (ilog2 x) \<le> x \<and> x < 2 powi (ilog2 x + 1)"
proof -
  let ?m = "\<lceil>1 / x\<rceil>"
  let ?k = "bitlen (?m - 1)"
  have inv: "1 < 1 / x" using assms by simp
  then have m2: "2 \<le> ?m" by (simp add: le_ceiling_iff)
  then have m0: "0 < ?m - 1" by simp
  from bitlen_bounds[OF m0] have b: "2 ^ nat (?k - 1) \<le> ?m - 1" "?m - 1 < 2 ^ nat ?k"
    by simp_all
  have k1: "1 \<le> ?k" using m0 by (simp add: bitlen_alt_def)
  have e: "ilog2 x = - ?k" using assms by (simp add: ilog2_def)
  have pk: "(2::rat) powi (- ?k) = 1 / of_int (2 ^ nat ?k)"
    using k1 by (simp add: power_int_minus_divide power_int_nonneg_exp)
  have pk1: "(2::rat) powi (- ?k + 1) = 1 / of_int (2 ^ nat (?k - 1))"
  proof -
    have "(2::rat) powi (- ?k + 1) = 2 powi (- (?k - 1))" by simp
    also have "\<dots> = 1 / 2 powi (?k - 1)" by (rule power_int_minus_divide)
    also have "\<dots> = 1 / of_int (2 ^ nat (?k - 1))"
      using k1 by (simp add: power_int_nonneg_exp)
    finally show ?thesis .
  qed
  have "?m \<le> 2 ^ nat ?k" using b(2) by simp
  then have "(of_int ?m :: rat) \<le> of_int (2 ^ nat ?k)" by (simp only: of_int_le_iff)
  moreover have "1 / x \<le> of_int ?m" by (rule le_of_int_ceiling)
  ultimately have up: "1 / x \<le> of_int (2 ^ nat ?k)" by linarith
  have pos: "(0::rat) < of_int (2 ^ nat ?k)" by simp
  have 1: "1 / of_int (2 ^ nat ?k) \<le> x"
  proof -
    have "1 \<le> x * of_int (2 ^ nat ?k)"
      using up assms(1) by (simp add: field_simps)
    then show ?thesis using pos by (simp add: field_simps)
  qed
  have "(of_int (2 ^ nat (?k - 1)) :: rat) \<le> of_int (?m - 1)"
    using b(1) by (simp only: of_int_le_iff)
  moreover have "of_int (?m - 1) < 1 / x"
    using ceiling_correct[of "1 / x"] by simp
  ultimately have lo: "of_int (2 ^ nat (?k - 1)) < 1 / x" by linarith
  have pos1: "(0::rat) < of_int (2 ^ nat (?k - 1))" by simp
  have 2: "x < 1 / of_int (2 ^ nat (?k - 1))"
  proof -
    have "x * of_int (2 ^ nat (?k - 1)) < 1"
      using lo assms(1) by (simp add: field_simps)
    then show ?thesis using pos1 by (simp add: field_simps)
  qed
  show ?thesis using 1 2 by (simp only: e pk pk1) 
qed

lemma ilog2_bounds:
  fixes x :: rat
  assumes "0 < x"
  shows "2 powi (ilog2 x) \<le> x" and "x < 2 powi (ilog2 x + 1)"
  using ilog2_bounds_ge1[of x] ilog2_bounds_lt1[of x] assms
  by (cases "1 \<le> x"; simp)+

lemma pow2_less_D:
  assumes "(2::rat) powi a < 2 powi b"
  shows "a < b"
proof (rule ccontr)
  assume "\<not> a < b"
  then have "b \<le> a" by simp
  then have "(2::rat) powi b \<le> 2 powi a" by (rule power_int_increasing) simp
  with assms show False by simp
qed

lemma pow2_le_D:
  assumes "(2::rat) powi a \<le> 2 powi b"
  shows "a \<le> b"
proof (rule ccontr)
  assume "\<not> a \<le> b"
  then have "b < a" by simp
  then have "(2::rat) powi b < 2 powi a" by (rule power_int_strict_increasing) simp
  with assms show False by simp
qed

lemma ilog2_unique:
  fixes x :: rat
  assumes "2 powi e \<le> x" "x < 2 powi (e + 1)"
  shows "ilog2 x = e"
proof -
  have x0: "0 < x" using assms(1) zero_less_power_int[of "2::rat" e] by linarith
  note b = ilog2_bounds[OF x0]
  have "(2::rat) powi e < 2 powi (ilog2 x + 1)" using assms(1) b(2) by linarith
  then have 1: "e < ilog2 x + 1" by (rule pow2_less_D)
  have "(2::rat) powi (ilog2 x) < 2 powi (e + 1)" using assms(2) b(1) by linarith
  then have 2: "ilog2 x < e + 1" by (rule pow2_less_D)
  from 1 2 show ?thesis by simp
qed

lemma ilog2_mono:
  fixes x y :: rat
  assumes "0 < x" "x \<le> y"
  shows "ilog2 x \<le> ilog2 y"
proof -
  have y0: "0 < y" using assms by simp
  have "(2::rat) powi (ilog2 x) < 2 powi (ilog2 y + 1)"
    using ilog2_bounds(1)[OF assms(1)] ilog2_bounds(2)[OF y0] assms(2) by linarith
  then have "ilog2 x < ilog2 y + 1" by (rule pow2_less_D)
  then show ?thesis by simp
qed

lemma rne_of_int [simp]: "rne (of_int n) = n"
  by (simp add: rne_def)

lemma rne_mono:
  assumes "y \<le> y'"
  shows "rne y \<le> rne y'"
proof -
  have f: "\<lfloor>y\<rfloor> \<le> \<lfloor>y'\<rfloor>" using assms by (rule floor_mono)
  have lo: "\<lfloor>z\<rfloor> \<le> rne z" and hi: "rne z \<le> \<lfloor>z\<rfloor> + 1" for z
    by (simp_all add: rne_def Let_def)
  show ?thesis
  proof (cases "\<lfloor>y\<rfloor> < \<lfloor>y'\<rfloor>")
    case True
    then have "rne y \<le> \<lfloor>y'\<rfloor>" using hi[of y] by linarith
    then show ?thesis using lo[of y'] by linarith
  next
    case False
    with f have eq: "\<lfloor>y\<rfloor> = \<lfloor>y'\<rfloor>" by simp
    then have "y - of_int \<lfloor>y\<rfloor> \<le> y' - of_int \<lfloor>y'\<rfloor>" using assms by simp
    then show ?thesis
      unfolding rne_def Let_def eq by (auto split: if_splits)
  qed
qed

lemma rne_ge: "of_int n \<le> y \<Longrightarrow> n \<le> rne y"
  using rne_mono[of "of_int n" y] by simp

lemma rne_le: "y \<le> of_int n \<Longrightarrow> rne y \<le> n"
  using rne_mono[of y "of_int n"] by simp

lemma binary64_pos:
  assumes "0 < x"
  shows "binary64 x = of_int (rne (x / 2 powi (fexp x - 52))) * 2 powi (fexp x - 52)"
  using assms by (simp add: binary64_def Let_def)

lemma binary64_zero [simp]: "binary64 0 = 0"
  by (simp add: binary64_def)

lemma pow2_pos [simp]: "(0::rat) < 2 powi k"
  by simp

lemma pow2_split: "(2::rat) powi (a + b) = 2 powi a * 2 powi b"
  by (rule power_int_add) simp

lemma pow2_div_ulp: "(2::rat) powi (e + 1) / 2 powi (e - 52) = of_int (2 ^ 53)"
proof -
  have "(2::rat) powi (e + 1) = 2 powi ((e - 52) + 53)"
    by (rule arg_cong[where f="\<lambda>k. 2 powi k"]) simp
  also have "\<dots> = 2 powi (e - 52) * 2 powi 53" by (rule pow2_split)
  finally show ?thesis by simp
qed

lemma pow2_div_ulp0: "(2::rat) powi e / 2 powi (e - 52) = of_int (2 ^ 52)"
proof -
  have "(2::rat) powi e = 2 powi ((e - 52) + 52)"
    by (rule arg_cong[where f="\<lambda>k. 2 powi k"]) simp
  also have "\<dots> = 2 powi (e - 52) * 2 powi 52" by (rule pow2_split)
  finally show ?thesis by simp
qed

lemma binary64_nonneg:
  assumes "0 \<le> x"
  shows "0 \<le> binary64 x"
proof (cases "x = 0")
  case True
  then show ?thesis by simp
next
  case False
  with assms have x: "0 < x" by simp
  have "of_int 0 \<le> x / 2 powi (fexp x - 52)" using x by simp
  then have "0 \<le> rne (x / 2 powi (fexp x - 52))" by (rule rne_ge)
  then show ?thesis by (simp add: binary64_pos[OF x])
qed

lemma binary64_upper:
  assumes "0 < x"
  shows "binary64 x \<le> 2 powi (fexp x + 1)"
proof -
  let ?u = "(2::rat) powi (fexp x - 52)"
  have "ilog2 x + 1 \<le> fexp x + 1" by (simp add: fexp_def)
  then have "(2::rat) powi (ilog2 x + 1) \<le> 2 powi (fexp x + 1)"
    by (rule power_int_increasing) simp
  then have "x \<le> 2 powi (fexp x + 1)" using ilog2_bounds(2)[OF assms] by linarith
  then have "x / ?u \<le> 2 powi (fexp x + 1) / ?u"
    by (simp add: divide_right_mono)
  then have "x / ?u \<le> of_int (2 ^ 53)" by (simp only: pow2_div_ulp)
  then have "rne (x / ?u) \<le> 2 ^ 53" by (rule rne_le)
  then have "(of_int (rne (x / ?u)) :: rat) \<le> of_int (2 ^ 53)" by (simp only: of_int_le_iff)
  then have "of_int (rne (x / ?u)) * ?u \<le> of_int (2 ^ 53) * ?u"
    by (simp add: mult_right_mono)
  also have "of_int (2 ^ 53) * ?u = 2 powi (fexp x + 1)"
    using pow2_div_ulp[of "fexp x"] by (simp add: field_simps)
  finally show ?thesis by (simp only: binary64_pos[OF assms])
qed

lemma binary64_lower:
  assumes "0 < x" "- 1022 \<le> ilog2 x"
  shows "2 powi (fexp x) \<le> binary64 x"
proof -
  let ?u = "(2::rat) powi (fexp x - 52)"
  have e: "fexp x = ilog2 x" using assms(2) by (simp add: fexp_def)
  have "2 powi (fexp x) \<le> x" using ilog2_bounds(1)[OF assms(1)] by (simp only: e)
  then have "2 powi (fexp x) / ?u \<le> x / ?u" by (simp add: divide_right_mono)
  then have "of_int (2 ^ 52) \<le> x / ?u" by (simp only: pow2_div_ulp0)
  then have "2 ^ 52 \<le> rne (x / ?u)" by (rule rne_ge)
  then have "(of_int (2 ^ 52) :: rat) \<le> of_int (rne (x / ?u))" by (simp only: of_int_le_iff)
  then have "of_int (2 ^ 52) * ?u \<le> of_int (rne (x / ?u)) * ?u"
    by (simp add: mult_right_mono)
  moreover have "of_int (2 ^ 52) * ?u = 2 powi (fexp x)"
    using pow2_div_ulp0[of "fexp x"] by (simp add: field_simps)
  ultimately show ?thesis by (simp only: binary64_pos[OF assms(1)])
qed

lemma binary64_mono_pos:
  assumes "0 < x" "x \<le> y"
  shows "binary64 x \<le> binary64 y"
proof -
  have y: "0 < y" using assms by simp
  have le: "fexp x \<le> fexp y" using ilog2_mono[OF assms] by (simp add: fexp_def)
  show ?thesis
  proof (cases "fexp x = fexp y")
    case True
    let ?u = "(2::rat) powi (fexp y - 52)"
    have "x / ?u \<le> y / ?u" using assms(2) by (simp add: divide_right_mono)
    then have "rne (x / ?u) \<le> rne (y / ?u)" by (rule rne_mono)
    then have "(of_int (rne (x / ?u)) :: rat) \<le> of_int (rne (y / ?u))"
      by (simp only: of_int_le_iff)
    then have "of_int (rne (x / ?u)) * ?u \<le> of_int (rne (y / ?u)) * ?u"
      by (simp add: mult_right_mono)
    then show ?thesis by (simp only: binary64_pos[OF assms(1)] binary64_pos[OF y] True)
  next
    case False
    with le have lt: "fexp x + 1 \<le> fexp y" by simp
    have "- 1022 \<le> fexp x" by (simp add: fexp_def)
    with lt have "- 1022 < fexp y" by simp
    then have n: "- 1022 \<le> ilog2 y" by (simp add: fexp_def max_def split: if_splits)
    have "binary64 x \<le> 2 powi (fexp x + 1)" by (rule binary64_upper[OF assms(1)])
    also have "\<dots> \<le> 2 powi (fexp y)" using lt by (rule power_int_increasing) simp
    also have "\<dots> \<le> binary64 y" by (rule binary64_lower[OF y n])
    finally show ?thesis .
  qed
qed

lemma binary64_mono:
  assumes "0 \<le> x" "x \<le> y"
  shows "binary64 x \<le> binary64 y"
proof (cases "x = 0")
  case True
  then show ?thesis using binary64_nonneg[of y] assms by simp
next
  case False
  with assms have "0 < x" by simp
  then show ?thesis using assms(2) by (rule binary64_mono_pos)
qed

lemma binary64_pow2:
  assumes "- 1022 \<le> k"
  shows "binary64 (2 powi k) = 2 powi k"
proof -
  have x: "(0::rat) < 2 powi k" by simp
  have "(2::rat) powi k < 2 powi (k + 1)" by (rule power_int_strict_increasing) simp_all
  then have "ilog2 ((2::rat) powi k) = k" by (intro ilog2_unique) simp_all
  then have e: "fexp ((2::rat) powi k) = k" using assms by (simp add: fexp_def)
  have "binary64 (2 powi k) = of_int (rne (2 powi k / 2 powi (k - 52))) * 2 powi (k - 52)"
    using binary64_pos[OF x] by (simp only: e)
  also have "\<dots> = of_int (rne (of_int (2 ^ 52))) * 2 powi (k - 52)"
    by (simp only: pow2_div_ulp0)
  also have "\<dots> = of_int (2 ^ 52) * 2 powi (k - 52)" by (simp only: rne_of_int)
  also have "\<dots> = 2 powi k" using pow2_div_ulp0[of k] by (simp add: field_simps)
  finally show ?thesis .
qed

lemma binary64_one [simp]: "binary64 1 = 1"
  using binary64_pow2[of 0] by simp

lemma overflow_check_ok:
  assumes "0 \<le> y" "y \<le> 2 powi 1023"
  shows "overflow_check y = Inr y"
proof (cases "y = 0")
  case True
  then show ?thesis by (simp add: overflow_check_def)
next
  case False
  with assms have y: "0 < y" by simp
  have "(2::rat) powi (ilog2 y) \<le> 2 powi 1023"
    using ilog2_bounds(1)[OF y] assms(2) by linarith
  then have "ilog2 y \<le> 1023" by (rule pow2_le_D)
  then show ?thesis using y by (simp add: overflow_check_def)
qed

lemma to_double_ok:
  assumes "0 \<le> x" "x \<le> 2 powi 1023"
  shows "to_double x = Inr (binary64 x)"
proof -
  have p: "binary64 (2 powi 1023) = 2 powi 1023" by (rule binary64_pow2) simp
  have "binary64 x \<le> binary64 (2 powi 1023)" using assms by (rule binary64_mono)
  then have "binary64 x \<le> 2 powi 1023" by (simp only: p)
  with binary64_nonneg[OF assms(1)] have "overflow_check (binary64 x) = Inr (binary64 x)"
    by (rule overflow_check_ok)
  then show ?thesis by (simp only: to_double_def)
qed

lemma one_le_big: "(1::rat) \<le> 2 powi 1023"
  using power_int_increasing[of 0 1023 "2::rat"] by simp

lemma of_int_big:
  assumes "base \<le> 2 ^ 1023"
  shows "(of_int base :: rat) \<le> 2 powi 1023"
proof -
  have "(of_int base :: rat) \<le> of_int (2 ^ 1023)" using assms by (simp only: of_int_le_iff)
  also have "(of_int (2 ^ 1023) :: rat) = 2 powi 1023" by simp
  finally show ?thesis .
qed

lemma ratio_unit:
  fixes T r :: int
  assumes "r \<le> T" "0 < T" "0 \<le> r"
  shows "(0::rat) \<le> of_int (T - r) / of_int T" "(of_int (T - r) :: rat) / of_int T \<le> 1"
  using assms by simp_all

lemma binary64_unit:
  assumes "0 \<le> x" "x \<le> 1"
  shows "0 \<le> binary64 x" "binary64 x \<le> 1"
  using binary64_nonneg[OF assms(1)] binary64_mono[OF assms] by simp_all

lemma sq_value_unit:
  assumes "pow2_monotone pw" "0 \<le> q" "q \<le> 1"
  shows "0 \<le> sq_value pw q" "sq_value pw q \<le> 1"
proof -
  have "0 \<le> pw q \<and> pw q \<le> 1" if "q \<noteq> 0"
    using assms that unfolding pow2_monotone_def
    by (metis less_le order_refl)
  then show "0 \<le> sq_value pw q" "sq_value pw q \<le> 1"
    by (auto simp: sq_value_def)
qed

lemma sq_value_mono:
  assumes "pow2_monotone pw" "0 \<le> q'" "q' \<le> q" "q \<le> 1"
  shows "sq_value pw q' \<le> sq_value pw q"
proof (cases "q' = 0")
  case True
  then show ?thesis using sq_value_unit(1)[OF assms(1), of q] assms by (simp add: sq_value_def)
next
  case False
  then have "0 < q'" using assms(2) by simp
  moreover from this have "q \<noteq> 0" using assms(3) by simp
  ultimately show ?thesis
    using assms unfolding pow2_monotone_def sq_value_def by (simp add: False)
qed

lemma float_sq_unit:
  assumes "pow2_monotone pw" "0 \<le> q" "q \<le> 1"
  shows "float_sq pw q = Inr (sq_value pw q)"
proof (cases "q = 0")
  case True
  then show ?thesis by (simp add: float_sq_def sq_value_def)
next
  case False
  have "0 \<le> sq_value pw q" "sq_value pw q \<le> 2 powi 1023"
    using sq_value_unit[OF assms] one_le_big by linarith+
  then have "overflow_check (sq_value pw q) = Inr (sq_value pw q)" by (rule overflow_check_ok)
  then show ?thesis using False by (simp add: float_sq_def sq_value_def)
qed

lemma quadratic_amount_value:
  assumes pw: "pow2_monotone pw" and b0: "0 \<le> base" and b1: "base \<le> 2 ^ 1023"
    and r: "0 \<le> r" "r \<le> T" and T: "0 < T"
  shows "quadratic_amount pw base T r = Inr (quadratic_value pw base T r)"
proof -
  let ?x = "(of_int (T - r) :: rat) / of_int T"
  let ?q = "binary64 ?x"
  let ?b = "binary64 (of_int base)"
  have x: "0 \<le> ?x" "?x \<le> 1" using ratio_unit[OF r(2) T r(1)] .
  have xb: "?x \<le> 2 powi 1023" using x(2) one_le_big by linarith
  have "to_double ?x = Inr ?q" using x(1) xb by (rule to_double_ok)
  then have d: "int_truediv (T - r) T = Inr ?q"
    using T by (simp only: int_truediv_def) simp
  have q: "0 \<le> ?q" "?q \<le> 1" using binary64_unit[OF x] .
  have s: "float_sq pw ?q = Inr (sq_value pw ?q)" by (rule float_sq_unit[OF pw q])
  have sv: "0 \<le> sq_value pw ?q" "sq_value pw ?q \<le> 1" using sq_value_unit[OF pw q] .
  have ob: "(0::rat) \<le> of_int base" "(of_int base :: rat) \<le> 2 powi 1023"
    using b0 of_int_big[OF b1] by simp_all
  have f: "float_of_int base = Inr ?b"
    unfolding float_of_int_def using ob by (rule to_double_ok)
  have p: "binary64 (2 powi 1023) = 2 powi 1023" by (rule binary64_pow2) simp
  have bb: "0 \<le> ?b" "?b \<le> 2 powi 1023"
    using binary64_nonneg[OF ob(1)] binary64_mono[OF ob] by (simp_all only: p)
  have prod: "0 \<le> ?b * sq_value pw ?q" "?b * sq_value pw ?q \<le> 2 powi 1023"
  proof -
    show "0 \<le> ?b * sq_value pw ?q" using bb(1) sv(1) by simp
    have "?b * sq_value pw ?q \<le> ?b * 1" using bb(1) sv(2) by (rule mult_left_mono[rotated])
    then show "?b * sq_value pw ?q \<le> 2 powi 1023" using bb(2) by linarith
  qed
  have m: "float_mul ?b (sq_value pw ?q) = Inr (binary64 (?b * sq_value pw ?q))"
    unfolding float_mul_def using prod by (rule to_double_ok)
  have nn: "0 \<le> binary64 (?b * sq_value pw ?q)" using prod(1) by (rule binary64_nonneg)
  have "py_int (binary64 (?b * sq_value pw ?q)) = quadratic_value pw base T r"
    using nn by (simp only: py_int_def quadratic_value_def if_True)
  then show ?thesis
    by (simp only: quadratic_amount_def d bind_err_simps s f m)
qed

lemma quadratic_value_mono:
  assumes pw: "pow2_monotone pw" and b0: "0 \<le> base"
    and r: "0 \<le> r" "r \<le> r'" "r' \<le> T" and T: "0 < T"
  shows "quadratic_value pw base T r' \<le> quadratic_value pw base T r"
    and "0 \<le> quadratic_value pw base T r'"
proof -
  let ?x = "(of_int (T - r) :: rat) / of_int T"
  let ?x' = "(of_int (T - r') :: rat) / of_int T"
  have x': "0 \<le> ?x'" "?x' \<le> 1" using ratio_unit[of r' T] r T by simp_all
  have x: "0 \<le> ?x" "?x \<le> 1" using ratio_unit[of r T] r T by simp_all
  have xx: "?x' \<le> ?x" using r T by (simp add: divide_right_mono)
  have q: "binary64 ?x' \<le> binary64 ?x" using x'(1) xx by (rule binary64_mono)
  have qu: "0 \<le> binary64 ?x'" "binary64 ?x \<le> 1"
    using binary64_unit[OF x'] binary64_unit[OF x] by simp_all
  have s: "sq_value pw (binary64 ?x') \<le> sq_value pw (binary64 ?x)"
    using pw qu(1) q qu(2) by (rule sq_value_mono)
  have s0: "0 \<le> sq_value pw (binary64 ?x')"
    using sq_value_unit(1)[OF pw binary64_unit[OF x']] .
  have b: "0 \<le> binary64 (of_int base :: rat)" using b0 by (intro binary64_nonneg) simp
  have p0: "0 \<le> binary64 (of_int base) * sq_value pw (binary64 ?x')" using b s0 by simp
  have "binary64 (of_int base) * sq_value pw (binary64 ?x')
          \<le> binary64 (of_int base) * sq_value pw (binary64 ?x)"
    using s b by (rule mult_left_mono)
  with p0 have "binary64 (binary64 (of_int base) * sq_value pw (binary64 ?x'))
          \<le> binary64 (binary64 (of_int base) * sq_value pw (binary64 ?x))"
    by (rule binary64_mono)
  then show "quadratic_value pw base T r' \<le> quadratic_value pw base T r"
    unfolding quadratic_value_def by (rule floor_mono)
  have "0 \<le> binary64 (binary64 (of_int base) * sq_value pw (binary64 ?x'))"
    using p0 by (rule binary64_nonneg)
  then show "0 \<le> quadratic_value pw base T r'"
    unfolding quadratic_value_def by simp
qed

lemma quadratic_value_last: "quadratic_value pw base T T = 0"
  by (simp add: quadratic_value_def sq_value_def)

section \<open>Properties of calculate\_token\_distributions\<close>

lemma token_step_skip:
  "total_available utxos (cfg_token_id c) = 0 \<Longrightarrow> token_step lm utxos c r n = Inr None"
  by (simp add: token_step_def)

lemma total_available_empty:
  "dict_get utxos tid [] = [] \<Longrightarrow> total_available utxos tid = 0"
  by (simp add: total_available_def)

lemma min_div_pos:
  fixes a b n :: int
  assumes "0 < n"
  shows "min (a div n) (b div n) = min a b div n"
  using assms by (simp add: min_def zdiv_mono1) (metis zdiv_mono1 nle_le order_antisym)

lemma token_step_pos:
  assumes "0 < n" "total_available utxos (cfg_token_id c) \<noteq> 0" "round_amount lm c r = Inr ra"
  shows "token_step lm utxos c r n =
           (let q = min ra (total_available utxos (cfg_token_id c)) div n
            in if 0 < q then Inr (Some \<lparr>token_id = cfg_token_id c, amount_per_recipient = q,
                          total_amount = q * n\<rparr>) else Inr None)"
proof -
  have ne: "dict_get utxos (cfg_token_id c) [] \<noteq> []"
    using assms(2) total_available_empty by blast
  show ?thesis
    using assms ne by (simp add: token_step_def py_floordiv_def Let_def min_div_pos[OF assms(1), symmetric])
qed

lemma token_step_zero_recipients:
  assumes "total_available utxos (cfg_token_id c) \<noteq> 0"
  shows "token_step lm utxos c r 0 =
           (case round_amount lm c r of Inl e \<Rightarrow> Inl e | Inr ra \<Rightarrow> Inl ZeroDivisionError)"
proof -
  have ne: "dict_get utxos (cfg_token_id c) [] \<noteq> []"
    using assms total_available_empty by blast
  show ?thesis
    using assms ne by (simp add: token_step_def py_floordiv_def split: sum.splits)
qed


lemma calc_loop_ok:
  assumes "\<forall>x\<in>set cfgs. \<exists>y. token_step lm utxos (snd x) r n = Inr y"
  shows "calc_loop lm utxos r n cfgs acc =
           Inr (acc @ concat (map (\<lambda>x. case token_step lm utxos (snd x) r n of
                                        Inr (Some d) \<Rightarrow> [d] | _ \<Rightarrow> []) cfgs))"
  using assms
proof (induction cfgs arbitrary: acc)
  case Nil
  then show ?case by simp
next
  case (Cons x cfgs)
  obtain name c where x: "x = (name, c)" by (cases x)
  from Cons.prems obtain y where y: "token_step lm utxos c r n = Inr y"
    by (auto simp: x)
  have rest: "\<forall>x\<in>set cfgs. \<exists>y. token_step lm utxos (snd x) r n = Inr y"
    using Cons.prems by simp
  show ?case
    by (cases y) (simp_all add: x y Cons.IH[OF rest])
qed

lemma calc_loop_raise:
  assumes "\<forall>x\<in>set pre. \<exists>y. token_step lm utxos (snd x) r n = Inr y"
    and "token_step lm utxos c r n = Inl e"
  shows "calc_loop lm utxos r n (pre @ (name, c) # post) acc = Inl e"
  using assms
proof (induction pre arbitrary: acc)
  case Nil
  then show ?case by simp
next
  case (Cons x pre)
  obtain name' c' where x: "x = (name', c')" by (cases x)
  from Cons.prems obtain y where y: "token_step lm utxos c' r n = Inr y"
    by (auto simp: x)
  have rest: "\<forall>x\<in>set pre. \<exists>y. token_step lm utxos (snd x) r n = Inr y"
    using Cons.prems by simp
  show ?case
    by (cases y) (simp_all add: x y Cons.IH[OF rest Cons.prems(2)])
qed

lemma logarithmic_amount_raises:
  assumes "rounds \<le> 1 \<or> rounds < r"
  shows "\<exists>e. logarithmic_amount mlog base rounds r = Inl e"
proof (cases "rounds < r")
  case True
  then show ?thesis by (simp add: logarithmic_amount_def math_log_def)
next
  case False
  with assms have "rounds \<le> 1" by simp
  then show ?thesis
    by (cases "rounds = 1")
       (auto simp: logarithmic_amount_def math_log_def float_div_def)
qed

text \<open>
  Claim C2 says that a logarithmic token with \<open>total_rounds \<le> 1\<close>, or past its last
  round, gets a round amount of 0 without an exception. The code raises instead: with
  \<open>total_rounds = 1\<close> at round 1 the factor divides by \<open>log 1 = 0\<close>
  (\<^verbatim>\<open>ZeroDivisionError\<close>), and with \<open>total_rounds = 10\<close> at round 11 the logarithm
  of 0 is taken (\<^verbatim>\<open>ValueError\<close>); the exception leaves
  \<open>calculate_token_distributions\<close>.
\<close>

theorem logarithmic_edge_raises:
  "calculate_token_distributions sample_libm snap1 [(''tA'', cfgA ''logarithmic'' 100 100)] 1 1
     = Inl ZeroDivisionError \<and>
   calculate_token_distributions sample_libm snap1 [(''tA'', cfgA ''logarithmic'' 100 1000)] 11 1
     = Inl (ValueError MathDomainError)"
  by code_simp

text \<open>
  Claim C6: with a positive recipient count, and every emission formula that is evaluated
  returning, \<open>calculate_token_distributions\<close> returns, in the order of the configs,
  one distribution for each token whose quotient
  \<open>min round_amount total_available div num_recipients\<close> is positive, with that
  quotient as \<open>amount_per_recipient\<close> and the quotient times the recipient count as
  \<open>total_amount\<close>; a token whose quotient is 0, in particular one whose available
  total is 0, has no entry.
\<close>

theorem per_recipient_amount:
  assumes "0 < n"
    and "\<forall>x\<in>set cfgs. total_available utxos (cfg_token_id (snd x)) \<noteq> 0 \<longrightarrow>
            (\<exists>ra. round_amount lm (snd x) r = Inr ra)"
  shows "calculate_token_distributions lm utxos cfgs r n =
           Inr (concat (map (\<lambda>x.
             if total_available utxos (cfg_token_id (snd x)) = 0 then []
             else case round_amount lm (snd x) r of
                    Inl e \<Rightarrow> []
                  | Inr ra \<Rightarrow>
                      (let q = min ra (total_available utxos (cfg_token_id (snd x))) div n
                       in if 0 < q
                          then [\<lparr>token_id = cfg_token_id (snd x), amount_per_recipient = q,
                                 total_amount = q * n\<rparr>]
                          else [])) cfgs))"
proof -
  have step: "token_step lm utxos (snd x) r n =
      (if total_available utxos (cfg_token_id (snd x)) = 0 then Inr None
       else case round_amount lm (snd x) r of
              Inl e \<Rightarrow> Inl e
            | Inr ra \<Rightarrow>
                (let q = min ra (total_available utxos (cfg_token_id (snd x))) div n
                 in if 0 < q
                    then Inr (Some \<lparr>token_id = cfg_token_id (snd x), amount_per_recipient = q,
                           total_amount = q * n\<rparr>)
                    else Inr None))" if "x \<in> set cfgs" for x
  proof (cases "total_available utxos (cfg_token_id (snd x)) = 0")
    case True
    then show ?thesis by (simp add: token_step_skip)
  next
    case False
    with assms(2) that obtain ra where ra: "round_amount lm (snd x) r = Inr ra" by blast
    show ?thesis using False by (simp add: ra token_step_pos[OF assms(1) False ra])
  qed
  have ok: "\<forall>x\<in>set cfgs. \<exists>y. token_step lm utxos (snd x) r n = Inr y"
  proof
    fix x assume x: "x \<in> set cfgs"
    show "\<exists>y. token_step lm utxos (snd x) r n = Inr y"
    proof (cases "total_available utxos (cfg_token_id (snd x)) = 0")
      case True
      then show ?thesis by (simp add: token_step_skip)
    next
      case False
      with assms(2) x obtain ra where ra: "round_amount lm (snd x) r = Inr ra" by blast
      show ?thesis by (simp add: step[OF x] ra False Let_def)
    qed
  qed
  have m: "map (\<lambda>x. case token_step lm utxos (snd x) r n of
                      Inr (Some d) \<Rightarrow> [d] | _ \<Rightarrow> []) cfgs =
        map (\<lambda>x.
             if total_available utxos (cfg_token_id (snd x)) = 0 then []
             else case round_amount lm (snd x) r of
                    Inl e \<Rightarrow> []
                  | Inr ra \<Rightarrow>
                      (let q = min ra (total_available utxos (cfg_token_id (snd x))) div n
                       in if 0 < q
                          then [\<lparr>token_id = cfg_token_id (snd x), amount_per_recipient = q,
                                 total_amount = q * n\<rparr>]
                          else [])) cfgs"
    by (rule map_cong) (auto simp: step Let_def split: sum.splits)
  show ?thesis
    by (simp only: calculate_token_distributions_def calc_loop_ok[OF ok] m append_Nil)
qed

theorem per_recipient_amount_witness:
  "calculate_token_distributions sample_libm snap2
      [(''tA'', cfgA ''linear'' 10 100), (''tC'', cfgA ''linear'' 2 100), (''tB'', cfgB)] 1 3
     = Inr [\<lparr>token_id = ''A'', amount_per_recipient = 3, total_amount = 9\<rparr>,
            \<lparr>token_id = ''B'', amount_per_recipient = 3, total_amount = 9\<rparr>]"
proof -
  have r1: "round_amount sample_libm (cfgA ''linear'' 10 100) 1 = Inr 10" by code_simp
  have r2: "round_amount sample_libm (cfgA ''linear'' 2 100) 1 = Inr 2" by code_simp
  have r3: "round_amount sample_libm cfgB 1 = Inr 10" by code_simp
  have a1: "total_available snap2 ''A'' = 500" by code_simp
  have a2: "total_available snap2 ''B'' = 40" by code_simp
  have i1: "cfg_token_id (cfgA ty p t) = ''A''" for ty p t by (simp add: cfgA_def)
  have i2: "cfg_token_id cfgB = ''B''" by (simp add: cfgB_def)
  have h1: "(0::int) < 3" by simp
  have h2: "\<forall>x\<in>set [(''tA'', cfgA ''linear'' 10 100), (''tC'', cfgA ''linear'' 2 100), (''tB'', cfgB)].
            total_available snap2 (cfg_token_id (snd x)) \<noteq> 0 \<longrightarrow>
            (\<exists>ra. round_amount sample_libm (snd x) 1 = Inr ra)"
    by (simp add: r1 r2 r3)
  show ?thesis
    using per_recipient_amount[OF h1 h2] by (simp add: r1 r2 r3 a1 a2 i1 i2)
qed

lemma token_step_none_iff:
  "token_step lm utxos c r n = Inr None \<longleftrightarrow>
     total_available utxos (cfg_token_id c) = 0 \<or>
     (\<exists>ra. round_amount lm c r = Inr ra \<and> n \<noteq> 0 \<and>
           min (ra div n) (total_available utxos (cfg_token_id c) div n) \<le> 0)"
proof (cases "total_available utxos (cfg_token_id c) = 0")
  case True
  then show ?thesis by (simp add: token_step_skip)
next
  case False
  then have ne: "dict_get utxos (cfg_token_id c) [] \<noteq> []"
    using total_available_empty by blast
  show ?thesis
  proof (cases "round_amount lm c r")
    case (Inl e)
    then show ?thesis using False ne by (simp add: token_step_def)
  next
    case (Inr ra)
    then show ?thesis using False ne
      by (auto simp: token_step_def py_floordiv_def not_less min_def)
  qed
qed

lemma token_step_raises_iff:
  "(\<exists>e. token_step lm utxos c r n = Inl e) \<longleftrightarrow>
     total_available utxos (cfg_token_id c) \<noteq> 0 \<and>
     ((\<exists>e. round_amount lm c r = Inl e) \<or> n = 0)"
proof (cases "total_available utxos (cfg_token_id c) = 0")
  case True
  then show ?thesis by (simp add: token_step_skip)
next
  case False
  then have ne: "dict_get utxos (cfg_token_id c) [] \<noteq> []"
    using total_available_empty by blast
  show ?thesis
  proof (cases "round_amount lm c r")
    case (Inl e)
    then show ?thesis using False ne by (simp add: token_step_def)
  next
    case (Inr ra)
    then show ?thesis using False ne
      by (simp add: token_step_def py_floordiv_def)
  qed
qed

text \<open>
  Claim C8 as amended. Failures are not isolated per token: the loop has no exception
  handling of its own. Processing a token raises exactly when its available total is
  not 0 and either the computation of its round amount raises or the recipient count
  is 0; if the tokens before it are processed without an exception, the call raises
  that exception and returns no distribution, neither of the tokens before nor of those
  after. When no token raises, the call returns the distributions of the tokens in
  order. A token is left out of the result on its own exactly when its available total
  is 0 (which includes having no UTXOs) or its per-recipient amount is not positive.
\<close>

theorem token_failures_abort_the_call:
  "((\<forall>x\<in>set pre. \<exists>y. token_step lm utxos (snd x) r n = Inr y) \<and>
    token_step lm utxos c r n = Inl e \<longrightarrow>
      calculate_token_distributions lm utxos (pre @ (name, c) # post) r n = Inl e) \<and>
   ((\<forall>x\<in>set cfgs. \<exists>y. token_step lm utxos (snd x) r n = Inr y) \<longrightarrow>
      calculate_token_distributions lm utxos cfgs r n =
        Inr (concat (map (\<lambda>x. case token_step lm utxos (snd x) r n of
                                 Inr (Some d) \<Rightarrow> [d] | _ \<Rightarrow> []) cfgs))) \<and>
   ((\<exists>e. token_step lm utxos c' r n = Inl e) \<longleftrightarrow>
      total_available utxos (cfg_token_id c') \<noteq> 0 \<and>
      ((\<exists>e. round_amount lm c' r = Inl e) \<or> n = 0)) \<and>
   (token_step lm utxos c' r n = Inr None \<longleftrightarrow>
      total_available utxos (cfg_token_id c') = 0 \<or>
      (\<exists>ra. round_amount lm c' r = Inr ra \<and> n \<noteq> 0 \<and>
            min (ra div n) (total_available utxos (cfg_token_id c') div n) \<le> 0))"
proof (intro conjI impI)
  assume "(\<forall>x\<in>set pre. \<exists>y. token_step lm utxos (snd x) r n = Inr y) \<and>
          token_step lm utxos c r n = Inl e"
  then show "calculate_token_distributions lm utxos (pre @ (name, c) # post) r n = Inl e"
    unfolding calculate_token_distributions_def by (intro calc_loop_raise) simp_all
next
  assume a: "\<forall>x\<in>set cfgs. \<exists>y. token_step lm utxos (snd x) r n = Inr y"
  show "calculate_token_distributions lm utxos cfgs r n =
        Inr (concat (map (\<lambda>x. case token_step lm utxos (snd x) r n of
                                 Inr (Some d) \<Rightarrow> [d] | _ \<Rightarrow> []) cfgs))"
    by (simp only: calculate_token_distributions_def calc_loop_ok[OF a] append_Nil)
next
  show "(\<exists>e. token_step lm utxos c' r n = Inl e) \<longleftrightarrow>
      total_available utxos (cfg_token_id c') \<noteq> 0 \<and>
      ((\<exists>e. round_amount lm c' r = Inl e) \<or> n = 0)"
    by (rule token_step_raises_iff)
next
  show "token_step lm utxos c' r n = Inr None \<longleftrightarrow>
      total_available utxos (cfg_token_id c') = 0 \<or>
      (\<exists>ra. round_amount lm c' r = Inr ra \<and> n \<noteq> 0 \<and>
            min (ra div n) (total_available utxos (cfg_token_id c') div n) \<le> 0)"
    by (rule token_step_none_iff)
qed

theorem token_failures_abort_the_call_witness:
  "calculate_token_distributions sample_libm snap2
      ([(''tB'', cfgB)] @ (''tA'', cfgA ''linear'' 0 100) # [(''tB'', cfgB)]) 1 3
     = Inl ZeroDivisionError \<and>
   calculate_token_distributions sample_libm snap2
      [(''tB'', cfgB), (''tA'', cfgA ''linear'' 2 100), (''tB'', cfgB)] 1 3
     = Inr [\<lparr>token_id = ''B'', amount_per_recipient = 3, total_amount = 9\<rparr>,
            \<lparr>token_id = ''B'', amount_per_recipient = 3, total_amount = 9\<rparr>]"
proof -
  have s1: "token_step sample_libm snap2 cfgB 1 3
              = Inr (Some \<lparr>token_id = ''B'', amount_per_recipient = 3, total_amount = 9\<rparr>)"
    by code_simp
  have s2: "token_step sample_libm snap2 (cfgA ''linear'' 0 100) 1 3 = Inl ZeroDivisionError"
    by code_simp
  have s3: "token_step sample_libm snap2 (cfgA ''linear'' 2 100) 1 3 = Inr None"
    by code_simp
  have h1: "(\<forall>x\<in>set [(''tB'', cfgB)]. \<exists>y. token_step sample_libm snap2 (snd x) 1 3 = Inr y) \<and>
            token_step sample_libm snap2 (cfgA ''linear'' 0 100) 1 3 = Inl ZeroDivisionError"
    by (simp add: s1 s2)
  have h2: "\<forall>x\<in>set [(''tB'', cfgB), (''tA'', cfgA ''linear'' 2 100), (''tB'', cfgB)].
              \<exists>y. token_step sample_libm snap2 (snd x) 1 3 = Inr y"
    by (simp add: s1 s3)
  note t = token_failures_abort_the_call[of "[(''tB'', cfgB)]" sample_libm snap2 1 3
             "cfgA ''linear'' 0 100" ZeroDivisionError "''tA''" "[(''tB'', cfgB)]"
             "[(''tB'', cfgB), (''tA'', cfgA ''linear'' 2 100), (''tB'', cfgB)]"]
  have a: "calculate_token_distributions sample_libm snap2
      ([(''tB'', cfgB)] @ (''tA'', cfgA ''linear'' 0 100) # [(''tB'', cfgB)]) 1 3
     = Inl ZeroDivisionError"
    using t h1 by blast
  have b: "calculate_token_distributions sample_libm snap2
      [(''tB'', cfgB), (''tA'', cfgA ''linear'' 2 100), (''tB'', cfgB)] 1 3 =
        Inr (concat (map (\<lambda>x. case token_step sample_libm snap2 (snd x) 1 3 of
                                 Inr (Some d) \<Rightarrow> [d] | _ \<Rightarrow> [])
               [(''tB'', cfgB), (''tA'', cfgA ''linear'' 2 100), (''tB'', cfgB)]))"
    using t h2 by blast
  show ?thesis using a b by (simp add: s1 s3)
qed

text \<open>
  Claim C8 says that a token whose configuration makes its calculation invalid does not
  keep the other tokens from being processed and returned. Here token \<open>A\<close> is
  configured with \<open>tokens_per_round = 0\<close>, so its \<open>total_rounds\<close> divides by zero;
  token \<open>B\<close> alone yields a distribution, but with \<open>A\<close> in front of it the whole call
  raises and returns nothing.
\<close>

theorem invalid_config_blocks_other_tokens:
  "calculate_token_distributions sample_libm snap2
      [(''tA'', cfgA ''linear'' 0 100), (''tB'', cfgB)] 1 3 = Inl ZeroDivisionError \<and>
   calculate_token_distributions sample_libm snap2 [(''tB'', cfgB)] 1 3
     = Inr [\<lparr>token_id = ''B'', amount_per_recipient = 3, total_amount = 9\<rparr>]"
  by code_simp

text \<open>
  With 0 recipients the first token whose available total is not 0 decides the
  exception: that of its round amount if its computation raises, else the division by
  zero.
\<close>

lemma zero_recipients_exception:
  assumes "\<forall>x\<in>set pre. total_available utxos (cfg_token_id (snd x)) = 0"
    and "total_available utxos (cfg_token_id c) \<noteq> 0"
  shows "calculate_token_distributions lm utxos (pre @ (name, c) # post) r 0 =
           (case round_amount lm c r of Inl e \<Rightarrow> Inl e | Inr ra \<Rightarrow> Inl ZeroDivisionError)"
proof -
  have pre: "\<forall>x\<in>set pre. \<exists>y. token_step lm utxos (snd x) r 0 = Inr y"
    using assms(1) by (simp add: token_step_skip)
  obtain e where e: "token_step lm utxos c r 0 = Inl e"
    "(case round_amount lm c r of Inl e \<Rightarrow> Inl e | Inr ra \<Rightarrow> Inl ZeroDivisionError) = (Inl e :: error + token_distribution list)"
    by (cases "round_amount lm c r") (simp_all add: token_step_zero_recipients[OF assms(2)])
  show ?thesis
    unfolding calculate_token_distributions_def e(2)
    using pre e(1) by (rule calc_loop_raise)
qed

text \<open>
  Claim C9 says that with 0 recipients the call raises a division by zero whenever a
  token has a positive available total. The token below has 500 available. With a
  linear schedule the call raises \<^verbatim>\<open>ZeroDivisionError\<close> as claimed; with a logarithmic
  schedule past its last round the formula raises \<^verbatim>\<open>ValueError\<close> before the division
  by the recipient count is reached.
\<close>

theorem zero_recipients_formula_error_first:
  "total_available snap1 ''A'' = 500 \<and>
   calculate_token_distributions sample_libm snap1 [(''tA'', cfgA ''logarithmic'' 100 1000)] 11 0
     = Inl (ValueError MathDomainError) \<and>
   calculate_token_distributions sample_libm snap1 [(''tA'', cfgA ''linear'' 100 1000)] 11 0
     = Inl ZeroDivisionError"
  by code_simp

lemma quadratic_amount_last:
  assumes b0: "0 \<le> base" and b1: "base \<le> 2 ^ 1023" and T: "0 < T"
  shows "quadratic_amount pw base T T = Inr 0"
proof -
  have z: "to_double 0 = Inr 0" by (simp add: to_double_def overflow_check_def)
  have d: "int_truediv (T - T) T = Inr 0" using T by (simp add: int_truediv_def z)
  have s: "float_sq pw 0 = Inr 0" by (simp add: float_sq_def)
  have ob: "(0::rat) \<le> of_int base" "(of_int base :: rat) \<le> 2 powi 1023"
    using b0 of_int_big[OF b1] by simp_all
  have f: "float_of_int base = Inr (binary64 (of_int base))"
    unfolding float_of_int_def using ob by (rule to_double_ok)
  have m: "float_mul (binary64 (of_int base)) 0 = Inr 0" by (simp add: float_mul_def z)
  have p: "py_int 0 = 0" by (simp add: py_int_def)
  show ?thesis by (simp only: quadratic_amount_def d bind_err_simps s f m p)
qed

lemma round_amount_quadratic:
  assumes "distribution_type c = ''quadratic''" "total_rounds c = Inr T"
  shows "round_amount lm c r = quadratic_amount (libm_pow2 lm) (tokens_per_round c) T r"
  using assms by (simp add: round_amount_def)

lemma sample_libm_pow2_monotone: "pow2_monotone (libm_pow2 sample_libm)"
proof -
  have a: "0 \<le> binary64 (x * x)" for x :: rat
    by (rule binary64_nonneg) simp
  have b: "binary64 (x * x) \<le> binary64 (y * y)" if "0 < x" "x \<le> y" for x y :: rat
  proof -
    have "x * x \<le> y * y" using that by (intro mult_mono) simp_all
    then show ?thesis by (intro binary64_mono) simp_all
  qed
  have c: "binary64 (y * y) \<le> 1" if "0 < y" "y \<le> 1" for y :: rat
  proof -
    have "y * y \<le> 1" using that by (simp add: mult_le_one)
    then have "binary64 (y * y) \<le> binary64 1" by (intro binary64_mono) simp_all
    then show ?thesis by simp
  qed
  have "0 \<le> libm_pow2 sample_libm x \<and> libm_pow2 sample_libm x \<le> libm_pow2 sample_libm y \<and>
        libm_pow2 sample_libm y \<le> 1" if "0 < x \<and> x \<le> y \<and> y \<le> 1" for x y
  proof -
    from that have "0 < y" by simp
    then show ?thesis using that a[of x] b[of x y] c[of y] by (simp add: sample_libm_def)
  qed
  then show ?thesis unfolding pow2_monotone_def by blast
qed

lemma quadratic_example:
  assumes "libm_pow2 lm (1 / 2) = 1 / 4"
  shows "round_amount lm
           \<lparr>cfg_token_id = tid, distribution_type = ''quadratic'', tokens_per_round = 100,
            cfg_total_amount = 1000\<rparr> 5 = Inr 25"
proof -
  have t: "int_truediv 1000 100 = Inr 10" by code_simp
  have c: "py_ceil 10 = 10" by code_simp
  have d: "int_truediv (10 - 5) 10 = Inr (1 / 2)" by code_simp
  have o: "overflow_check (1 / 4) = Inr (1 / 4)" by code_simp
  have s: "float_sq (libm_pow2 lm) (1 / 2) = Inr (1 / 4)"
    by (simp add: float_sq_def assms o)
  have f: "float_of_int 100 = Inr 100" by code_simp
  have m: "float_mul 100 (1 / 4) = Inr 25" by code_simp
  have p: "py_int 25 = 25" by code_simp
  have q: "quadratic_amount (libm_pow2 lm) 100 10 5 = Inr 25"
    by (simp only: quadratic_amount_def d bind_err_simps s f m p)
  show ?thesis
    by (simp add: round_amount_def total_rounds_def t c q)
qed

text \<open>
  Claim C7 as amended. For a quadratic token with \<open>total_rounds = T\<close>, a
  \<open>tokens_per_round\<close> from 0 to \<open>2 ^ 1023\<close> and rounds \<open>1 \<le> r \<le> r' \<le> T\<close>: the round amount
  at round \<open>T\<close> is 0; and when the library's \<^verbatim>\<open>pow(x, 2.0)\<close> is monotone on the unit
  interval, the round amount is the value of the formula in double arithmetic
  (\<open>quadratic_value\<close>), it is not negative, and it does not increase from round \<open>r\<close> to
  round \<open>r'\<close>. With 100 tokens per round and a total of 1000 the round amount at round 5
  is 25 whenever the library's \<^verbatim>\<open>pow(0.5, 2.0)\<close> is 0.25.
\<close>

theorem quadratic_round_amount:
  assumes "distribution_type c = ''quadratic''" and "total_rounds c = Inr T"
    and "0 \<le> tokens_per_round c" and "tokens_per_round c \<le> 2 ^ 1023"
    and "1 \<le> r" and "r \<le> r'" and "r' \<le> T"
  shows "round_amount lm c T = Inr 0 \<and>
         (pow2_monotone (libm_pow2 lm) \<longrightarrow>
            round_amount lm c r = Inr (quadratic_value (libm_pow2 lm) (tokens_per_round c) T r) \<and>
            round_amount lm c r' = Inr (quadratic_value (libm_pow2 lm) (tokens_per_round c) T r') \<and>
            quadratic_value (libm_pow2 lm) (tokens_per_round c) T r'
              \<le> quadratic_value (libm_pow2 lm) (tokens_per_round c) T r \<and>
            0 \<le> quadratic_value (libm_pow2 lm) (tokens_per_round c) T r') \<and>
         (libm_pow2 lm (1 / 2) = 1 / 4 \<longrightarrow>
            round_amount lm
              \<lparr>cfg_token_id = tid, distribution_type = ''quadratic'', tokens_per_round = 100,
               cfg_total_amount = 1000\<rparr> 5 = Inr 25)"
proof (intro conjI impI)
  have T: "0 < T" using assms(5,6,7) by simp
  show "round_amount lm c T = Inr 0"
    by (simp only: round_amount_quadratic[OF assms(1,2)] quadratic_amount_last[OF assms(3,4) T])
  assume pw: "pow2_monotone (libm_pow2 lm)"
  have r: "0 \<le> r" "r \<le> T" "0 \<le> r'" using assms(5,6,7) by simp_all
  show "round_amount lm c r = Inr (quadratic_value (libm_pow2 lm) (tokens_per_round c) T r)"
    by (simp only: round_amount_quadratic[OF assms(1,2)]
          quadratic_amount_value[OF pw assms(3,4) r(1,2) T])
  show "round_amount lm c r' = Inr (quadratic_value (libm_pow2 lm) (tokens_per_round c) T r')"
    by (simp only: round_amount_quadratic[OF assms(1,2)]
          quadratic_amount_value[OF pw assms(3,4) r(3) assms(7) T])
  show "quadratic_value (libm_pow2 lm) (tokens_per_round c) T r'
              \<le> quadratic_value (libm_pow2 lm) (tokens_per_round c) T r"
    using pw assms(3) r(1) assms(6,7) T by (rule quadratic_value_mono(1))
  show "0 \<le> quadratic_value (libm_pow2 lm) (tokens_per_round c) T r'"
    using pw assms(3) r(1) assms(6,7) T by (rule quadratic_value_mono(2))
next
  assume "libm_pow2 lm (1 / 2) = 1 / 4"
  then show "round_amount lm
              \<lparr>cfg_token_id = tid, distribution_type = ''quadratic'', tokens_per_round = 100,
               cfg_total_amount = 1000\<rparr> 5 = Inr 25"
    by (rule quadratic_example)
qed

text \<open>
  Claim C7 says that the round amount is the exact floor of
  \<open>tokens_per_round * ((total_rounds - round) / total_rounds)\<^sup>2\<close>. With 100 tokens per
  round and 10 rounds, the exact value at round 3 is 49, but 7/10 is not a double, the
  product is 48.99999999999999 and the round amount is 48.
\<close>

theorem quadratic_below_exact_floor:
  "total_rounds (cfgA ''quadratic'' 100 1000) = Inr 10 \<and>
   round_amount sample_libm (cfgA ''quadratic'' 100 1000) 3 = Inr 48 \<and>
   \<lfloor>(100::rat) * ((10 - 3) / 10)\<^sup>2\<rfloor> = 49"
  by code_simp

theorem quadratic_round_amount_witness:
  "round_amount sample_libm (cfgA ''quadratic'' 100 1000) 10 = Inr 0 \<and>
   round_amount sample_libm (cfgA ''quadratic'' 100 1000) 3 = Inr 48 \<and>
   round_amount sample_libm (cfgA ''quadratic'' 100 1000) 5 = Inr 25 \<and>
   quadratic_value (libm_pow2 sample_libm) 100 10 5 \<le> quadratic_value (libm_pow2 sample_libm) 100 10 3"
proof -
  have h1: "distribution_type (cfgA ''quadratic'' 100 1000) = ''quadratic''"
    by (simp add: cfgA_def)
  have h2: "total_rounds (cfgA ''quadratic'' 100 1000) = Inr 10" by code_simp
  have tp: "tokens_per_round (cfgA ''quadratic'' 100 1000) = 100" by (simp add: cfgA_def)
  have h3: "0 \<le> tokens_per_round (cfgA ''quadratic'' 100 1000)" by (simp add: tp)
  have h4: "tokens_per_round (cfgA ''quadratic'' 100 1000) \<le> 2 ^ 1023" by (simp add: tp)
  have v3: "quadratic_value (libm_pow2 sample_libm) 100 10 3 = 48" by code_simp
  have v5: "quadratic_value (libm_pow2 sample_libm) 100 10 5 = 25" by code_simp
  from quadratic_round_amount[OF h1 h2 h3 h4, of 3 5 sample_libm] sample_libm_pow2_monotone
  show ?thesis by (simp add: tp v3 v5)
qed

section \<open>Properties of distribute\_multiple\_tokens\<close>












text \<open>
  Claim C1 says that every plan returned conserves each distributed token: what the
  recipients receive plus the change equals what the selected inputs cover, and a
  violation aborts the plan. At the input below the node no longer has box \<open>b2\<close>, the
  inputs cover 4 of token \<open>A\<close>, and the plan is returned all the same: its recipient
  output carries 10 and its change output carries no token.
\<close>

theorem short_coverage_plan_returned:
  "distribute_multiple_tokens node_b2_missing snap_short [dist_A10] [''r1''] ''proxy''
     = Inr \<lparr>plan_inputs = [''b1''],
            plan_outputs =
              [\<lparr>out_value = 2000000, out_tokens = Some [(''A'', 10)], out_contract = ''r1''\<rparr>,
               \<lparr>out_value = 7000000, out_tokens = None, out_contract = ''proxy''\<rparr>]\<rparr> \<and>
   covered snap_short {''b1''} ''A'' = 4"
  by code_simp

section \<open>Properties of select\_utxos\<close>

lemma dict_index_simps:
  "map_of d k = Some v \<Longrightarrow> dict_index d k = Inr v"
  "map_of d k = None \<Longrightarrow> dict_index d k = Inl KeyError"
  by (simp_all add: dict_index_def)

lemma dict_get_simps:
  "map_of d k = Some v \<Longrightarrow> dict_get d k x = v"
  "map_of d k = None \<Longrightarrow> dict_get d k x = x"
  by (simp_all add: dict_get_def)

lemma dict_index_key:
  "k \<in> fst ` set d \<Longrightarrow> dict_index d k = Inr (dict_get d k x)"
  by (cases "map_of d k") (auto simp: dict_index_def dict_get_def map_of_eq_None_iff)

subsection \<open>The keys of the amounts dict\<close>

lemma keys_initial_amounts_aux:
  "fst ` set (fold (\<lambda>td ta. AList.update (token_id td) 0 ta) ds m) = token_id ` set ds \<union> fst ` set m"
  by (induction ds arbitrary: m) (auto simp: dom_update)

lemma keys_initial_amounts: "fst ` set (initial_amounts ds) = token_id ` set ds"
  by (simp add: initial_amounts_def keys_initial_amounts_aux)

lemma keys_add_tokens: "fst ` set (add_tokens bt ta) = fst ` set ta"
  unfolding add_tokens_def
proof (induction bt arbitrary: ta)
  case Nil
  show ?case by simp
next
  case (Cons p bt)
  obtain k a where p: "p = (k, a)" by (cases p)
  show ?case
  proof (cases "map_of ta k")
    case None
    then show ?thesis using Cons.IH by (simp add: p)
  next
    case (Some v)
    then have "k \<in> fst ` set ta" by (metis map_of_eq_None_iff option.distinct(1))
    then have "fst ` set (AList.update k (v + a) ta) = fst ` set ta"
      by (auto simp: dom_update)
    then show ?thesis using Cons.IH[of "AList.update k (v + a) ta"] Some by (simp add: p)
  qed
qed

lemma use_multi_keys: "fst ` set (token_amounts (use_multi b s)) = fst ` set (token_amounts s)"
  by (simp add: use_multi_def keys_add_tokens)

lemma fold_use_multi_keys:
  "fst ` set (token_amounts (fold use_multi bs s)) = fst ` set (token_amounts s)"
  by (induction bs arbitrary: s) (simp_all add: use_multi_keys)

lemma first_pass_keys:
  "fst ` set (token_amounts (first_pass all_utxos s)) = fst ` set (token_amounts s)"
  by (simp add: first_pass_def fold_use_multi_keys)

subsection \<open>First pass\<close>

lemma fold_use_multi_boxes:
  "boxes (fold use_multi bs s) = boxes s @ unused_in_order (box_ids s) bs \<and>
   box_ids (fold use_multi bs s) = box_ids s \<union> box_id ` set bs"
proof (induction bs arbitrary: s)
  case Nil
  show ?case by simp
next
  case (Cons b bs)
  show ?case
    using Cons.IH[of "use_multi b s"] by (auto simp: use_multi_def)
qed

lemma unused_in_order_subset: "set (unused_in_order seen bs) \<subseteq> set bs"
  by (induction bs arbitrary: seen) auto

lemma unused_in_order_ids:
  "box_id ` set (unused_in_order seen bs) = box_id ` set bs - seen"
  by (induction bs arbitrary: seen) auto

lemma unused_in_order_distinct: "distinct (map box_id (unused_in_order seen bs))"
  by (induction bs arbitrary: seen) (auto simp: unused_in_order_ids)

lemma unused_in_order_sorted:
  "sorted_wrt R bs \<Longrightarrow> sorted_wrt R (unused_in_order seen bs)"
proof (induction bs arbitrary: seen)
  case Nil
  show ?case by simp
next
  case (Cons b bs)
  then show ?case
    using unused_in_order_subset[of "insert (box_id b) seen" bs] by auto
qed

subsection \<open>Second pass\<close>

lemma top_up_result:
  assumes "tid \<in> fst ` set (token_amounts s)"
  shows "\<exists>k s'. top_up tid target bs s = Inr s' \<and>
           boxes s' = boxes s @ take k bs \<and>
           box_ids s' = box_ids s \<union> box_id ` set (take k bs) \<and>
           fst ` set (token_amounts s') = fst ` set (token_amounts s)"
  using assms
proof (induction bs arbitrary: s)
  case Nil
  show ?case by simp
next
  case (Cons b bs)
  let ?held = "dict_get (token_amounts s) tid 0"
  have idx: "dict_index (token_amounts s) tid = Inr ?held"
    using Cons.prems by (rule dict_index_key)
  show ?case
  proof (cases "target \<le> ?held")
    case True
    have "top_up tid target (b # bs) s = Inr s \<and> boxes s = boxes s @ take 0 (b # bs) \<and>
          box_ids s = box_ids s \<union> box_id ` set (take 0 (b # bs)) \<and>
          fst ` set (token_amounts s) = fst ` set (token_amounts s)"
      using True by (simp add: idx)
    then show ?thesis by blast
  next
    case False
    let ?s1 = "\<lparr>boxes = boxes s @ [b], total_erg = total_erg s + box_value b,
                token_amounts = AList.update tid (?held + dict_get (tokens b) tid 0) (token_amounts s),
                box_ids = insert (box_id b) (box_ids s)\<rparr>"
    have keys: "fst ` set (token_amounts ?s1) = fst ` set (token_amounts s)"
      using Cons.prems by (auto simp: dom_update)
    then have "tid \<in> fst ` set (token_amounts ?s1)" using Cons.prems by simp
    from Cons.IH[OF this] obtain k s' where
      r: "top_up tid target bs ?s1 = Inr s'" "boxes s' = boxes ?s1 @ take k bs"
         "box_ids s' = box_ids ?s1 \<union> box_id ` set (take k bs)"
         "fst ` set (token_amounts s') = fst ` set (token_amounts ?s1)"
      by blast
    have "top_up tid target (b # bs) s = Inr s' \<and> boxes s' = boxes s @ take (Suc k) (b # bs) \<and>
          box_ids s' = box_ids s \<union> box_id ` set (take (Suc k) (b # bs)) \<and>
          fst ` set (token_amounts s') = fst ` set (token_amounts s)"
      using False r keys by (simp add: idx)
    then show ?thesis by blast
  qed
qed

lemma distinct_map_insort_key:
  "distinct (map g (insort_key f x xs)) = (g x \<notin> g ` set xs \<and> distinct (map g xs))"
  by (induction xs) (auto simp: set_insort_key)

lemma distinct_map_sort_key: "distinct (map g (sort_key f xs)) = distinct (map g xs)"
  by (induction xs) (auto simp: distinct_map_insort_key)

lemma dict_get_in_snapshot:
  "b \<in> set (dict_get all_utxos tid []) \<Longrightarrow> \<exists>x\<in>set all_utxos. b \<in> set (snd x)"
proof (cases "map_of all_utxos tid")
  case None
  assume "b \<in> set (dict_get all_utxos tid [])"
  with None show ?thesis by (simp add: dict_get_def)
next
  case (Some us)
  assume "b \<in> set (dict_get all_utxos tid [])"
  with Some have "b \<in> set (snd (tid, us))" by (simp add: dict_get_def)
  moreover have "(tid, us) \<in> set all_utxos" using Some by (rule map_of_SomeD)
  ultimately show ?thesis by blast
qed

lemma dict_get_distinct:
  assumes "\<forall>x\<in>set all_utxos. distinct (map box_id (snd x))"
  shows "distinct (map box_id (dict_get all_utxos tid []))"
proof (cases "map_of all_utxos tid")
  case None
  then show ?thesis by (simp add: dict_get_def)
next
  case (Some us)
  then have "(tid, us) \<in> set all_utxos" by (rule map_of_SomeD)
  with assms have "distinct (map box_id (snd (tid, us)))" by blast
  with Some show ?thesis by (simp add: dict_get_def)
qed

lemma available_boxes_set:
  "set (available_boxes all_utxos tid s) =
     {b \<in> set (dict_get all_utxos tid []). box_id b \<notin> box_ids s}"
  by (auto simp: available_boxes_def)

lemma available_boxes_distinct:
  assumes "\<forall>x\<in>set all_utxos. distinct (map box_id (snd x))"
  shows "distinct (map box_id (available_boxes all_utxos tid s))"
  using dict_get_distinct[OF assms, of tid]
  by (simp add: available_boxes_def distinct_map_sort_key distinct_map_filter)

lemma second_pass_step_result:
  assumes "token_id d \<in> fst ` set (token_amounts s)"
  shows "\<exists>k s'. second_pass_step all_utxos d s = Inr s' \<and>
           boxes s' = boxes s @ take k (available_boxes all_utxos (token_id d) s) \<and>
           box_ids s' = box_ids s \<union> box_id ` set (take k (available_boxes all_utxos (token_id d) s)) \<and>
           fst ` set (token_amounts s') = fst ` set (token_amounts s)"
proof -
  let ?held = "dict_get (token_amounts s) (token_id d) 0"
  have idx: "dict_index (token_amounts s) (token_id d) = Inr ?held"
    using assms by (rule dict_index_key)
  show ?thesis
  proof (cases "?held < total_amount d")
    case True
    then show ?thesis
      using top_up_result[OF assms, of "total_amount d" "available_boxes all_utxos (token_id d) s"]
      by (simp add: second_pass_step_def idx)
  next
    case False
    have "second_pass_step all_utxos d s = Inr s \<and>
          boxes s = boxes s @ take 0 (available_boxes all_utxos (token_id d) s) \<and>
          box_ids s = box_ids s \<union> box_id ` set (take 0 (available_boxes all_utxos (token_id d) s)) \<and>
          fst ` set (token_amounts s) = fst ` set (token_amounts s)"
      using False by (simp add: second_pass_step_def idx)
    then show ?thesis by blast
  qed
qed

text \<open>What the second pass appends: boxes of the snapshot whose identifier was unused.\<close>

lemma second_pass_result:
  assumes "token_id ` set ds \<subseteq> fst ` set (token_amounts s)"
  shows "\<exists>p s'. second_pass all_utxos ds s = Inr s' \<and>
           boxes s' = boxes s @ p \<and>
           box_ids s' = box_ids s \<union> box_id ` set p \<and>
           fst ` set (token_amounts s') = fst ` set (token_amounts s) \<and>
           (\<forall>b\<in>set p. box_id b \<notin> box_ids s \<and> (\<exists>x\<in>set all_utxos. b \<in> set (snd x))) \<and>
           ((\<forall>x\<in>set all_utxos. distinct (map box_id (snd x))) \<longrightarrow> distinct (map box_id p))"
  using assms
proof (induction ds arbitrary: s)
  case Nil
  have "second_pass all_utxos [] s = Inr s \<and> boxes s = boxes s @ [] \<and>
        box_ids s = box_ids s \<union> box_id ` set [] \<and>
        fst ` set (token_amounts s) = fst ` set (token_amounts s) \<and>
        (\<forall>b\<in>set ([]::utxo list). box_id b \<notin> box_ids s \<and> (\<exists>x\<in>set all_utxos. b \<in> set (snd x))) \<and>
        ((\<forall>x\<in>set all_utxos. distinct (map box_id (snd x))) \<longrightarrow> distinct (map box_id ([]::utxo list)))"
    by simp
  then show ?case by (intro exI[of _ "[]"] exI[of _ s])
next
  case (Cons d ds)
  let ?av = "available_boxes all_utxos (token_id d) s"
  have "token_id d \<in> fst ` set (token_amounts s)" using Cons.prems by simp
  from second_pass_step_result[OF this, of all_utxos] obtain k s1 where
    s1: "second_pass_step all_utxos d s = Inr s1" "boxes s1 = boxes s @ take k ?av"
        "box_ids s1 = box_ids s \<union> box_id ` set (take k ?av)"
        "fst ` set (token_amounts s1) = fst ` set (token_amounts s)"
    by (elim exE conjE) (rule that; assumption)
  have "token_id ` set ds \<subseteq> fst ` set (token_amounts s1)" using Cons.prems s1(4) by simp
  from Cons.IH[OF this] obtain p s' where
    r: "second_pass all_utxos ds s1 = Inr s'" "boxes s' = boxes s1 @ p"
       "box_ids s' = box_ids s1 \<union> box_id ` set p"
       "fst ` set (token_amounts s') = fst ` set (token_amounts s1)"
       "\<forall>b\<in>set p. box_id b \<notin> box_ids s1 \<and> (\<exists>x\<in>set all_utxos. b \<in> set (snd x))"
       "(\<forall>x\<in>set all_utxos. distinct (map box_id (snd x))) \<longrightarrow> distinct (map box_id p)"
    by (elim exE conjE) (rule that; assumption)
  have sub: "set (take k ?av) \<subseteq> set ?av" by (rule set_take_subset)
  have av: "\<forall>b\<in>set (take k ?av). box_id b \<notin> box_ids s \<and> (\<exists>x\<in>set all_utxos. b \<in> set (snd x))"
  proof
    fix b assume "b \<in> set (take k ?av)"
    then have "b \<in> set ?av" using sub by blast
    then have "b \<in> set (dict_get all_utxos (token_id d) [])" "box_id b \<notin> box_ids s"
      by (simp_all add: available_boxes_set)
    then show "box_id b \<notin> box_ids s \<and> (\<exists>x\<in>set all_utxos. b \<in> set (snd x))"
      using dict_get_in_snapshot[of b all_utxos "token_id d"] by simp
  qed
  have dis: "distinct (map box_id (take k ?av @ p))"
    if wf: "\<forall>x\<in>set all_utxos. distinct (map box_id (snd x))"
  proof -
    have "distinct (take k (map box_id ?av))"
      using available_boxes_distinct[OF wf, of "token_id d" s] by (rule distinct_take)
    then have "distinct (map box_id (take k ?av))" by (simp add: take_map)
    moreover have "distinct (map box_id p)" using r(6) wf by blast
    moreover have "box_id ` set (take k ?av) \<inter> box_id ` set p = {}"
    proof -
      have "\<forall>b\<in>set p. box_id b \<notin> box_ids s1" using r(5) by blast
      then have "box_id ` set p \<inter> box_ids s1 = {}" by blast
      moreover have "box_id ` set (take k ?av) \<subseteq> box_ids s1" by (simp add: s1(3))
      ultimately show ?thesis by blast
    qed
    ultimately show ?thesis by simp
  qed
  have c1: "second_pass all_utxos (d # ds) s = Inr s'" by (simp add: s1(1) r(1))
  have c2: "boxes s' = boxes s @ (take k ?av @ p)" by (simp add: r(2) s1(2))
  have c3: "box_ids s' = box_ids s \<union> box_id ` set (take k ?av @ p)"
    by (simp add: r(3) s1(3) image_Un Un_assoc)
  have c4: "fst ` set (token_amounts s') = fst ` set (token_amounts s)"
    by (simp add: r(4) s1(4))
  have c5: "\<forall>b\<in>set (take k ?av @ p). box_id b \<notin> box_ids s \<and> (\<exists>x\<in>set all_utxos. b \<in> set (snd x))"
  proof
    fix b assume "b \<in> set (take k ?av @ p)"
    then consider "b \<in> set (take k ?av)" | "b \<in> set p" by auto
    then show "box_id b \<notin> box_ids s \<and> (\<exists>x\<in>set all_utxos. b \<in> set (snd x))"
    proof cases
      case 1
      then show ?thesis using av by blast
    next
      case 2
      then have "box_id b \<notin> box_ids s1 \<and> (\<exists>x\<in>set all_utxos. b \<in> set (snd x))"
        using r(5) by blast
      then show ?thesis by (simp add: s1(3))
    qed
  qed
  have c6: "(\<forall>x\<in>set all_utxos. distinct (map box_id (snd x))) \<longrightarrow>
              distinct (map box_id (take k ?av @ p))"
    using dis by blast
  show ?case
    by (intro exI[of _ "take k ?av @ p"] exI[of _ s'] conjI) (fact c1 c2 c3 c4 c5 c6)+
qed

lemma missing_tokens_result:
  assumes "token_id ` set ds \<subseteq> fst ` set ta"
  shows "missing_tokens ta ds =
           Inr (map (\<lambda>d. (token_id d, total_amount d, dict_get ta (token_id d) 0))
                    (filter (\<lambda>d. dict_get ta (token_id d) 0 < total_amount d) ds))"
  using assms
proof (induction ds)
  case Nil
  show ?case by simp
next
  case (Cons d ds)
  have "dict_index ta (token_id d) = Inr (dict_get ta (token_id d) 0)"
    using Cons.prems by (intro dict_index_key) simp
  then show ?case using Cons by simp
qed

text \<open>The two passes together.\<close>

lemma two_pass_result:
  "\<exists>p s. two_pass all_utxos ds = Inr s \<and>
     boxes s = unused_in_order {}
                 (sort_key (\<lambda>box. - int (needed_count (initial_amounts ds) box))
                    (multi_token_boxes all_utxos)) @ p \<and>
     box_ids s = box_id ` set (boxes s) \<and>
     token_id ` set ds \<subseteq> fst ` set (token_amounts s) \<and>
     (\<forall>b\<in>set p. box_id b \<notin> box_id ` set (multi_token_boxes all_utxos) \<and>
                 (\<exists>x\<in>set all_utxos. b \<in> set (snd x))) \<and>
     ((\<forall>x\<in>set all_utxos. distinct (map box_id (snd x))) \<longrightarrow> distinct (map box_id (boxes s)))"
proof -
  let ?s0 = "\<lparr>boxes = [], total_erg = 0, token_amounts = initial_amounts ds, box_ids = {}\<rparr>"
  let ?cand = "sort_key (\<lambda>box. - int (needed_count (initial_amounts ds) box))
                 (multi_token_boxes all_utxos)"
  let ?s1 = "first_pass all_utxos ?s0"
  have fp: "?s1 = fold use_multi ?cand ?s0" by (simp add: first_pass_def)
  have b1: "boxes ?s1 = unused_in_order {} ?cand"
    unfolding fp using fold_use_multi_boxes[of ?cand ?s0] by simp
  have i1: "box_ids ?s1 = box_id ` set (multi_token_boxes all_utxos)"
    unfolding fp using fold_use_multi_boxes[of ?cand ?s0] by simp
  have k1: "token_id ` set ds \<subseteq> fst ` set (token_amounts ?s1)"
    by (simp add: first_pass_keys keys_initial_amounts)
  from second_pass_result[OF k1, of all_utxos] obtain p s where
    r: "second_pass all_utxos ds ?s1 = Inr s" "boxes s = boxes ?s1 @ p"
       "box_ids s = box_ids ?s1 \<union> box_id ` set p"
       "fst ` set (token_amounts s) = fst ` set (token_amounts ?s1)"
       "\<forall>b\<in>set p. box_id b \<notin> box_ids ?s1 \<and> (\<exists>x\<in>set all_utxos. b \<in> set (snd x))"
       "(\<forall>x\<in>set all_utxos. distinct (map box_id (snd x))) \<longrightarrow> distinct (map box_id p)"
    by (elim exE conjE) (rule that; assumption)
  have ids1: "box_id ` set (unused_in_order {} ?cand) = box_id ` set (multi_token_boxes all_utxos)"
    by (simp add: unused_in_order_ids)
  have c1: "two_pass all_utxos ds = Inr s" by (simp add: two_pass_def r(1))
  have c2: "boxes s = unused_in_order {} ?cand @ p" by (simp only: r(2) b1)
  have c3: "box_ids s = box_id ` set (boxes s)"
    by (simp only: r(3) c2 i1 ids1 image_Un set_append)
  have c4: "token_id ` set ds \<subseteq> fst ` set (token_amounts s)" using k1 by (simp only: r(4))
  have c5: "\<forall>b\<in>set p. box_id b \<notin> box_id ` set (multi_token_boxes all_utxos) \<and>
                 (\<exists>x\<in>set all_utxos. b \<in> set (snd x))"
    using r(5) by (simp only: i1)
  have c6: "(\<forall>x\<in>set all_utxos. distinct (map box_id (snd x))) \<longrightarrow> distinct (map box_id (boxes s))"
  proof
    assume "\<forall>x\<in>set all_utxos. distinct (map box_id (snd x))"
    then have "distinct (map box_id p)" using r(6) by blast
    moreover have "box_id ` set (unused_in_order {} ?cand) \<inter> box_id ` set p = {}"
    proof -
      have "box_id b \<notin> box_id ` set (multi_token_boxes all_utxos)" if "b \<in> set p" for b
        using conjunct1[OF bspec[OF c5 that]] .
      then have "box_id ` set p \<inter> box_id ` set (multi_token_boxes all_utxos) = {}"
        by auto
      then show ?thesis unfolding ids1 by (simp add: Int_commute)
    qed
    ultimately show "distinct (map box_id (boxes s))"
      by (simp add: c2 unused_in_order_distinct)
  qed
  show ?thesis
    by (intro exI[of _ p] exI[of _ s] conjI) (fact c1 c2 c3 c4 c5 c6)+
qed

lemma select_utxos_eq:
  "\<exists>s. two_pass all_utxos ds = Inr s \<and>
     select_utxos all_utxos ds n =
       (if filter (\<lambda>d. dict_get (token_amounts s) (token_id d) 0 < total_amount d) ds \<noteq> []
        then Inl (ValueError (InsufficientTokenAmounts
               (map (\<lambda>d. (token_id d, total_amount d, dict_get (token_amounts s) (token_id d) 0))
                    (filter (\<lambda>d. dict_get (token_amounts s) (token_id d) 0 < total_amount d) ds))))
        else if total_erg s < needed_erg n
          then Inl (ValueError (InsufficientERG (needed_erg n) (total_erg s)))
        else Inr s)"
proof -
  from two_pass_result[of all_utxos ds] obtain s where
    s: "two_pass all_utxos ds = Inr s" and k: "token_id ` set ds \<subseteq> fst ` set (token_amounts s)"
    by (elim exE conjE) (rule that; assumption)
  show ?thesis
    by (intro exI[of _ s] conjI, rule s)
       (simp add: select_utxos_def s missing_tokens_result[OF k])
qed

text \<open>
  Claim C3 as amended. The two passes always end in a state \<open>s\<close> (no lookup of
  \<open>token_amounts\<close> fails). \<open>select_utxos\<close> returns exactly \<open>s\<close>, and only when
  every distribution's \<open>total_amount\<close> is covered by \<open>token_amounts\<close> and the ERG
  total reaches \<open>needed_erg\<close>; it raises exactly when one of the two requirements is
  unmet after the two passes. When a token is short the exception lists every short
  token with its need and its holding, and nothing about ERG; the ERG shortfall is
  named only when no token is short.
\<close>

theorem select_utxos_outcome:
  "\<exists>s. two_pass all_utxos ds = Inr s \<and>
     (\<forall>r. select_utxos all_utxos ds n = Inr r \<longrightarrow>
          r = s \<and>
          (\<forall>d\<in>set ds. total_amount d \<le> dict_get (token_amounts r) (token_id d) 0) \<and>
          needed_erg n \<le> total_erg r) \<and>
     ((\<exists>e. select_utxos all_utxos ds n = Inl e) \<longleftrightarrow>
        (\<exists>d\<in>set ds. dict_get (token_amounts s) (token_id d) 0 < total_amount d) \<or>
        total_erg s < needed_erg n) \<and>
     ((\<exists>d\<in>set ds. dict_get (token_amounts s) (token_id d) 0 < total_amount d) \<longrightarrow>
        select_utxos all_utxos ds n =
          Inl (ValueError (InsufficientTokenAmounts
            (map (\<lambda>d. (token_id d, total_amount d, dict_get (token_amounts s) (token_id d) 0))
                 (filter (\<lambda>d. dict_get (token_amounts s) (token_id d) 0 < total_amount d) ds))))) \<and>
     ((\<forall>d\<in>set ds. total_amount d \<le> dict_get (token_amounts s) (token_id d) 0) \<and>
      total_erg s < needed_erg n \<longrightarrow>
        select_utxos all_utxos ds n =
          Inl (ValueError (InsufficientERG (needed_erg n) (total_erg s))))"
proof -
  from select_utxos_eq[of all_utxos ds n] obtain s where
    s: "two_pass all_utxos ds = Inr s" and
    eq: "select_utxos all_utxos ds n =
       (if filter (\<lambda>d. dict_get (token_amounts s) (token_id d) 0 < total_amount d) ds \<noteq> []
        then Inl (ValueError (InsufficientTokenAmounts
               (map (\<lambda>d. (token_id d, total_amount d, dict_get (token_amounts s) (token_id d) 0))
                    (filter (\<lambda>d. dict_get (token_amounts s) (token_id d) 0 < total_amount d) ds))))
        else if total_erg s < needed_erg n
          then Inl (ValueError (InsufficientERG (needed_erg n) (total_erg s)))
        else Inr s)"
    by (elim exE conjE) (rule that; assumption)
  let ?short = "filter (\<lambda>d. dict_get (token_amounts s) (token_id d) 0 < total_amount d) ds"
  have short: "?short \<noteq> [] \<longleftrightarrow>
      (\<exists>d\<in>set ds. dict_get (token_amounts s) (token_id d) 0 < total_amount d)"
    by (simp add: filter_empty_conv)
  have c2: "\<forall>r. select_utxos all_utxos ds n = Inr r \<longrightarrow>
          r = s \<and>
          (\<forall>d\<in>set ds. total_amount d \<le> dict_get (token_amounts r) (token_id d) 0) \<and>
          needed_erg n \<le> total_erg r"
    unfolding eq using short by (auto split: if_splits simp: not_less)
  have c3: "(\<exists>e. select_utxos all_utxos ds n = Inl e) \<longleftrightarrow>
        (\<exists>d\<in>set ds. dict_get (token_amounts s) (token_id d) 0 < total_amount d) \<or>
        total_erg s < needed_erg n"
    unfolding eq short[symmetric] by (simp split: if_splits)
  have c4: "(\<exists>d\<in>set ds. dict_get (token_amounts s) (token_id d) 0 < total_amount d) \<longrightarrow>
        select_utxos all_utxos ds n =
          Inl (ValueError (InsufficientTokenAmounts
            (map (\<lambda>d. (token_id d, total_amount d, dict_get (token_amounts s) (token_id d) 0)) ?short)))"
    unfolding eq short[symmetric] by simp
  have c5: "(\<forall>d\<in>set ds. total_amount d \<le> dict_get (token_amounts s) (token_id d) 0) \<and>
      total_erg s < needed_erg n \<longrightarrow>
        select_utxos all_utxos ds n =
          Inl (ValueError (InsufficientERG (needed_erg n) (total_erg s)))"
  proof
    assume a: "(\<forall>d\<in>set ds. total_amount d \<le> dict_get (token_amounts s) (token_id d) 0) \<and>
      total_erg s < needed_erg n"
    then have "?short = []" by (auto simp: filter_empty_conv not_less)
    then show "select_utxos all_utxos ds n =
          Inl (ValueError (InsufficientERG (needed_erg n) (total_erg s)))"
      unfolding eq using a by simp
  qed
  show ?thesis
    by (intro exI[of _ s] conjI) (fact s c2 c3 c4 c5)+
qed

text \<open>
  Claim C4. A snapshot lists a UTXO at most once under a token (identifiers are
  unique, and the scanner emits each unspent box once per token), though it may list it
  under several tokens. On such a snapshot a successful selection holds no identifier
  twice, and \<open>box_ids\<close> is the set of the identifiers of the selected boxes: the used
  set is shared by both passes and all tokens, pass 1 tests it before each consumption
  and pass 2 when it builds the candidates of a token.
\<close>

theorem selection_has_no_duplicate:
  assumes "\<forall>x\<in>set all_utxos. distinct (map box_id (snd x))"
    and "select_utxos all_utxos ds n = Inr r"
  shows "distinct (map box_id (boxes r)) \<and> box_ids r = box_id ` set (boxes r)"
proof -
  from two_pass_result[of all_utxos ds] obtain s where
    s: "two_pass all_utxos ds = Inr s" and
    ids: "box_ids s = box_id ` set (boxes s)" and
    dis: "(\<forall>x\<in>set all_utxos. distinct (map box_id (snd x))) \<longrightarrow> distinct (map box_id (boxes s))"
    by (elim exE conjE) (rule that; assumption)
  have "r = s"
    using assms(2) by (simp add: select_utxos_def s split: sum.splits if_splits)
  then show ?thesis using ids dis assms(1) by simp
qed

lemma set_multi_token_boxes:
  "set (multi_token_boxes all_utxos) =
     {b. (\<exists>x\<in>set all_utxos. b \<in> set (snd x)) \<and> 1 < length (tokens b)}"
proof -
  have "b \<in> set (multi_token_boxes all_utxos) \<longleftrightarrow>
          (\<exists>x\<in>set all_utxos. b \<in> set (snd x)) \<and> 1 < length (tokens b)" for b
    by (force simp: multi_token_boxes_def)
  then show ?thesis by blast
qed

lemma distinct_keys_initial_amounts_aux:
  "distinct (map fst m) \<Longrightarrow>
   distinct (map fst (fold (\<lambda>td ta. AList.update (token_id td) 0 ta) ds m))"
  by (induction ds arbitrary: m) (simp_all add: distinct_update)

lemma needed_count_card:
  "needed_count (initial_amounts ds) b =
     card {t \<in> token_id ` set ds. map_of (tokens b) t \<noteq> None}"
proof -
  have d: "distinct (map fst (initial_amounts ds))"
    by (simp add: initial_amounts_def distinct_keys_initial_amounts_aux)
  have "distinct (filter (\<lambda>tid. map_of (tokens b) tid \<noteq> None) (map fst (initial_amounts ds)))"
    using d by (rule distinct_filter)
  then have "needed_count (initial_amounts ds) b =
          card (set (filter (\<lambda>tid. map_of (tokens b) tid \<noteq> None) (map fst (initial_amounts ds))))"
    unfolding needed_count_def by (simp only: distinct_card)
  also have "set (filter (\<lambda>tid. map_of (tokens b) tid \<noteq> None) (map fst (initial_amounts ds)))
               = {t \<in> token_id ` set ds. map_of (tokens b) t \<noteq> None}"
    using keys_initial_amounts[of ds] by auto
  finally show ?thesis .
qed

text \<open>
  Claim C5 as amended. A successful selection starts with the boxes of pass 1 and
  continues with boxes of at most one token entry. The boxes of pass 1 are the snapshot
  boxes with more than one token entry, requested or not, each identifier once, all of
  them consumed; they are in descending order of the number of distinct requested
  tokens they hold, and boxes with equal numbers keep the order of the snapshot (the
  sort is stable; the identifier plays no part).
\<close>

theorem first_pass_candidates_and_order:
  assumes "select_utxos all_utxos ds n = Inr r"
  shows "\<exists>p1 p2.
           boxes r = p1 @ p2 \<and>
           p1 = unused_in_order {}
                  (sort_key (\<lambda>box. - int (needed_count (initial_amounts ds) box))
                     (multi_token_boxes all_utxos)) \<and>
           box_id ` set p1 =
             box_id ` {b. (\<exists>x\<in>set all_utxos. b \<in> set (snd x)) \<and> 1 < length (tokens b)} \<and>
           sorted_wrt (\<lambda>a b. needed_count (initial_amounts ds) b
                               \<le> needed_count (initial_amounts ds) a) p1 \<and>
           (\<forall>b\<in>set p2. length (tokens b) \<le> 1) \<and>
           (\<forall>c. filter (\<lambda>b. needed_count (initial_amounts ds) b = c)
                  (sort_key (\<lambda>box. - int (needed_count (initial_amounts ds) box))
                     (multi_token_boxes all_utxos))
                = filter (\<lambda>b. needed_count (initial_amounts ds) b = c)
                    (multi_token_boxes all_utxos)) \<and>
           (\<forall>b. needed_count (initial_amounts ds) b =
                  card {t \<in> token_id ` set ds. map_of (tokens b) t \<noteq> None})"
proof -
  let ?key = "\<lambda>box. - int (needed_count (initial_amounts ds) box)"
  let ?cand = "sort_key ?key (multi_token_boxes all_utxos)"
  from two_pass_result[of all_utxos ds] obtain p s where
    s: "two_pass all_utxos ds = Inr s" and
    bs: "boxes s = unused_in_order {} ?cand @ p" and
    p: "\<forall>b\<in>set p. box_id b \<notin> box_id ` set (multi_token_boxes all_utxos) \<and>
                 (\<exists>x\<in>set all_utxos. b \<in> set (snd x))"
    by (elim exE conjE) (rule that; assumption)
  have rs: "r = s"
    using assms by (simp add: select_utxos_def s split: sum.splits if_splits)
  have single: "length (tokens b) \<le> 1" if "b \<in> set p" for b
  proof (rule ccontr)
    assume "\<not> length (tokens b) \<le> 1"
    then have "1 < length (tokens b)" by simp
    moreover have "\<exists>x\<in>set all_utxos. b \<in> set (snd x)"
      using conjunct2[OF bspec[OF p that]] .
    ultimately have "b \<in> set (multi_token_boxes all_utxos)"
      by (simp add: set_multi_token_boxes)
    then have "box_id b \<in> box_id ` set (multi_token_boxes all_utxos)" by (rule imageI)
    then show False using conjunct1[OF bspec[OF p that]] by simp
  qed
  have c1: "boxes r = unused_in_order {} ?cand @ p" using bs rs by simp
  have c3: "box_id ` set (unused_in_order {} ?cand)
           = box_id ` {b. (\<exists>x\<in>set all_utxos. b \<in> set (snd x)) \<and> 1 < length (tokens b)}"
    by (simp add: unused_in_order_ids set_multi_token_boxes)
  have "sorted (map ?key ?cand)" by (rule sorted_sort_key)
  then have "sorted_wrt (\<lambda>a b. ?key a \<le> ?key b) ?cand"
    by (simp add: sorted_map)
  then have "sorted_wrt (\<lambda>a b. needed_count (initial_amounts ds) b \<le> needed_count (initial_amounts ds) a) ?cand"
    by simp
  then have c4: "sorted_wrt (\<lambda>a b. needed_count (initial_amounts ds) b \<le> needed_count (initial_amounts ds) a)
           (unused_in_order {} ?cand)"
    by (rule unused_in_order_sorted)
  have c5: "\<forall>b\<in>set p. length (tokens b) \<le> 1" using single by blast
  have c6: "\<forall>c. filter (\<lambda>b. needed_count (initial_amounts ds) b = c) ?cand
         = filter (\<lambda>b. needed_count (initial_amounts ds) b = c) (multi_token_boxes all_utxos)"
  proof
    fix c
    have "filter (\<lambda>b. ?key b = - int c) ?cand
            = filter (\<lambda>b. ?key b = - int c) (multi_token_boxes all_utxos)"
      by (rule sort_key_stable)
    then show "filter (\<lambda>b. needed_count (initial_amounts ds) b = c) ?cand
         = filter (\<lambda>b. needed_count (initial_amounts ds) b = c) (multi_token_boxes all_utxos)"
      by simp
  qed
  have c7: "\<forall>b. needed_count (initial_amounts ds) b =
           card {t \<in> token_id ` set ds. map_of (tokens b) t \<noteq> None}"
    using needed_count_card by blast
  show ?thesis
    by (intro exI[of _ "unused_in_order {} ?cand"] exI[of _ p] conjI)
       (fact c1 refl c3 c4 c5 c6 c7)+
qed

text \<open>
  Claim C3 says the exception names each short resource. Here token \<open>A\<close> and the ERG
  are both short (1000 nanoERG selected, 3000000 needed), and the exception names the
  token only.
\<close>

theorem shortfall_names_tokens_only:
  "select_utxos snap_poor [dist_A10] 1
     = Inl (ValueError (InsufficientTokenAmounts [(''A'', 10, 5)])) \<and>
   two_pass snap_poor [dist_A10]
     = Inr \<lparr>boxes = [\<lparr>box_id = ''b1'', box_value = 1000, tokens = [(''A'', 5)]\<rparr>],
            total_erg = 1000, token_amounts = [(''A'', 5)], box_ids = {''b1''}\<rparr> \<and>
   needed_erg 1 = 3000000"
  by code_simp

theorem select_utxos_outcome_witness:
  "select_utxos snap_mixed [dist_A8, dist_B1] 1
     = Inr \<lparr>boxes = [box_ab, box_m1, box_a], total_erg = 30000000,
            token_amounts = [(''A'', 510), (''B'', 1)], box_ids = {''a'', ''m1'', ''ab''}\<rparr> \<and>
   total_amount dist_A8 \<le> dict_get [(''A'', 510), (''B'', 1)] (token_id dist_A8) 0 \<and>
   total_amount dist_B1 \<le> dict_get [(''A'', 510), (''B'', 1)] (token_id dist_B1) 0 \<and>
   needed_erg 1 \<le> 30000000"
proof -
  have sel: "select_utxos snap_mixed [dist_A8, dist_B1] 1
     = Inr \<lparr>boxes = [box_ab, box_m1, box_a], total_erg = 30000000,
            token_amounts = [(''A'', 510), (''B'', 1)], box_ids = {''a'', ''m1'', ''ab''}\<rparr>"
    by code_simp
  from select_utxos_outcome[of snap_mixed "[dist_A8, dist_B1]" 1] obtain s where
    "\<forall>r. select_utxos snap_mixed [dist_A8, dist_B1] 1 = Inr r \<longrightarrow>
          r = s \<and>
          (\<forall>d\<in>set [dist_A8, dist_B1]. total_amount d \<le> dict_get (token_amounts r) (token_id d) 0) \<and>
          needed_erg 1 \<le> total_erg r"
    by (elim exE conjE) (rule that; assumption)
  with sel show ?thesis by simp
qed

theorem selection_has_no_duplicate_witness:
  "distinct (map box_id [box_a, box_m1, box_ab]) \<and> distinct (map box_id [box_ab]) \<and>
   select_utxos snap_mixed [dist_A8, dist_B1] 1
     = Inr \<lparr>boxes = [box_ab, box_m1, box_a], total_erg = 30000000,
            token_amounts = [(''A'', 510), (''B'', 1)], box_ids = {''a'', ''m1'', ''ab''}\<rparr> \<and>
   distinct (map box_id [box_ab, box_m1, box_a]) \<and>
   {''a'', ''m1'', ''ab''} = box_id ` set [box_ab, box_m1, box_a]"
proof -
  have h1: "\<forall>x\<in>set snap_mixed. distinct (map box_id (snd x))"
    by (simp add: snap_mixed_def box_a_def box_m1_def box_ab_def)
  have h2: "select_utxos snap_mixed [dist_A8, dist_B1] 1
     = Inr \<lparr>boxes = [box_ab, box_m1, box_a], total_erg = 30000000,
            token_amounts = [(''A'', 510), (''B'', 1)], box_ids = {''a'', ''m1'', ''ab''}\<rparr>"
    by code_simp
  have h0: "distinct (map box_id [box_a, box_m1, box_ab]) \<and> distinct (map box_id [box_ab])"
    by (simp add: box_a_def box_m1_def box_ab_def)
  show ?thesis
    using h0 h2 selection_has_no_duplicate[OF h1 h2] by simp
qed

text \<open>
  Claim C5 says the candidates of pass 1 hold more than one requested token and ties
  are broken by identifier. Here only \<open>A\<close> is requested; both boxes hold \<open>A\<close> and an
  unrequested token, so each holds one requested token, and pass 1 consumes both, \<open>m2\<close>
  before \<open>m1\<close> as the snapshot lists them.
\<close>

theorem first_pass_takes_any_multi_entry_box:
  "boxes (first_pass snap_multi
            \<lparr>boxes = [], total_erg = 0, token_amounts = initial_amounts [dist_A2],
             box_ids = {}\<rparr>) = [box_m2, box_m1] \<and>
   needed_count (initial_amounts [dist_A2]) box_m2 = 1 \<and>
   needed_count (initial_amounts [dist_A2]) box_m1 = 1 \<and>
   box_id box_m2 = ''m2'' \<and> box_id box_m1 = ''m1''"
  by code_simp

theorem first_pass_candidates_and_order_witness:
  "select_utxos snap_mixed [dist_A8, dist_B1] 1
     = Inr \<lparr>boxes = [box_ab, box_m1, box_a], total_erg = 30000000,
            token_amounts = [(''A'', 510), (''B'', 1)], box_ids = {''a'', ''m1'', ''ab''}\<rparr> \<and>
   (\<exists>p2. [box_ab, box_m1, box_a] =
           unused_in_order {}
             (sort_key (\<lambda>box. - int (needed_count (initial_amounts [dist_A8, dist_B1]) box))
                (multi_token_boxes snap_mixed)) @ p2 \<and>
         (\<forall>b\<in>set p2. length (tokens b) \<le> 1))"
proof -
  have h: "select_utxos snap_mixed [dist_A8, dist_B1] 1
     = Inr \<lparr>boxes = [box_ab, box_m1, box_a], total_erg = 30000000,
            token_amounts = [(''A'', 510), (''B'', 1)], box_ids = {''a'', ''m1'', ''ab''}\<rparr>"
    by code_simp
  from first_pass_candidates_and_order[OF h] obtain p1 p2 where
    "boxes \<lparr>boxes = [box_ab, box_m1, box_a], total_erg = 30000000,
            token_amounts = [(''A'', 510), (''B'', 1)], box_ids = {''a'', ''m1'', ''ab''}\<rparr> = p1 @ p2"
    "p1 = unused_in_order {}
             (sort_key (\<lambda>box. - int (needed_count (initial_amounts [dist_A8, dist_B1]) box))
                (multi_token_boxes snap_mixed))"
    "\<forall>b\<in>set p2. length (tokens b) \<le> 1"
    by (elim exE conjE) (rule that; assumption)
  then show ?thesis using h by auto
qed

end
